theory Spec2Isabelle
  imports Main
begin

section \<open>Data model of the manager (src/main/Manager.ts)\<close>

subsection \<open>Enumerations and messages\<close>

text \<open>
  Modelled from the spec: \<open>ERecordingState\<close> is imported from \<open>./obsEnums\<close>, which is not
  among the sources. The spec (section 6) gives the engine states as Offline, Starting,
  Recording and Stopping, the four members \<open>Manager.ts\<close> mentions.
\<close>

datatype ERecordingState = Offline | Starting | Recording | Stopping

text \<open>
  \<open>RecStatus\<close> and \<open>MicStatus\<close> come from \<open>./types\<close> (not among the sources). The members
  of \<open>RecStatus\<close> are the ones the manager and the renderer name; \<open>MicStatus\<close> is never
  inspected by the manager, which only forwards \<open>recorder.obsMicState\<close>, so it is kept as the
  numeric value of the enum.
\<close>

datatype RecStatus =
  WaitingForWoW | RecStatusRecording | InvalidConfig | ReadyToRecord
  | FatalError | Overrunning | Reconfiguring

type_synonym MicStatus = nat

type_synonym CrashData = string

text \<open>
  What \<open>mainWindow.webContents.send\<close> is called with. The message of \<open>updateRecStatus\<close> is
  optional: the Reconfiguring branch of \<open>refreshStatus\<close> sends the status alone, while
  \<open>refreshRecStatus\<close> always passes a message (\<open>''''\<close> by default).
\<close>

datatype ipc_msg =
  UpdateRecStatus RecStatus "string option"
  | UpdateMicStatus MicStatus
  | RefreshState

subsection \<open>Configuration snapshots\<close>

text \<open>
  The snapshot types live in \<open>./types\<close>. Each record lists the fields \<open>Manager.ts\<close> reads and
  keeps every other setting in one last field, so that \<open>isEqual\<close> (deep equality by value)
  is equality of records.
\<close>

record ObsBaseConfig =
  storagePath :: string
  maxStorage :: nat
  obsPath :: string
  cloudStorage :: bool
  cloudAccountName :: string
  cloudAccountPassword :: string
  cloudGuildName :: string
  cloudUpload :: bool
  baseRest :: string

record ObsVideoConfig =
  obsCaptureMode :: string
  obsWindowName :: string
  videoRest :: string

record ObsAudioConfig =
  audioRest :: string

record FlavourConfig =
  recordRetail :: bool
  retailLogPath :: string
  recordClassic :: bool
  classicLogPath :: string
  recordEra :: bool
  eraLogPath :: string
  flavourRest :: string

record ObsOverlayConfig =
  chatOverlayOwnImage :: bool
  chatOverlayOwnImagePath :: string
  overlayCloudStorage :: bool
  overlayRest :: string

datatype config =
  BaseCfg ObsBaseConfig
  | VideoCfg ObsVideoConfig
  | AudioCfg ObsAudioConfig
  | FlavCfg FlavourConfig
  | OverlayCfg ObsOverlayConfig

text \<open>
  The \<open>ConfigService\<close> as the manager sees it: the five accessors of \<open>../utils/configUtils\<close>
  applied to it.
\<close>

record ConfigService =
  getObsBaseConfig :: ObsBaseConfig
  getObsVideoConfig :: ObsVideoConfig
  getObsAudioConfig :: ObsAudioConfig
  getFlavourConfig :: FlavourConfig
  getOverlayConfig :: ObsOverlayConfig

subsection \<open>Stages\<close>

text \<open>
  A \<open>ConfigStage\<close> holds its name, its validity flag and the snapshot last applied. The
  closures \<open>get\<close>, \<open>validate\<close> and \<open>configure\<close> of the five entries of \<open>Manager.stages\<close> are
  the functions \<open>stageGet\<close>, \<open>stageValidate\<close> and \<open>stageConfigure\<close> below.
\<close>

datatype stage_name = obsBase | obsVideo | obsAudio | flavour | overlay

record ConfigStage =
  name :: stage_name
  valid :: bool
  current :: config

fun stageGet :: "stage_name \<Rightarrow> ConfigService \<Rightarrow> config" where
  "stageGet obsBase cfg = BaseCfg (getObsBaseConfig cfg)"
| "stageGet obsVideo cfg = VideoCfg (getObsVideoConfig cfg)"
| "stageGet obsAudio cfg = AudioCfg (getObsAudioConfig cfg)"
| "stageGet flavour cfg = FlavCfg (getFlavourConfig cfg)"
| "stageGet overlay cfg = OverlayCfg (getOverlayConfig cfg)"

subsection \<open>Errors\<close>

text \<open>
  Modelled from the spec: \<open>AuthError\<close> and \<open>RetryableConfigError\<close> are classes of
  \<open>../utils\<close>, not among the sources. They are taken as two distinct subclasses of \<open>Error\<close>
  (the spec's terminal and retryable failures), the second carrying its delay \<open>time\<close> in
  milliseconds.
\<close>

datatype verror =
  Error string
  | AuthError string
  | RetryableConfigError string nat

fun message :: "verror \<Rightarrow> string" where
  "message (Error msg) = msg"
| "message (AuthError msg) = msg"
| "message (RetryableConfigError msg t) = msg"

text \<open>
  \<open>String(error)\<close>: \<open>Error.prototype.toString\<close> gives the name, a colon and the message;
  the subclasses are taken to keep the inherited name.
\<close>

definition errorString :: "verror \<Rightarrow> string" where
  "errorString e = ''Error: '' @ message e"

subsection \<open>Collaborators and the manager object\<close>

text \<open>
  A log handler as the manager reads it: \<open>activity\<close> is the truthiness of the handler's
  \<open>activity\<close> member. \<open>destroyed\<close> records \<open>removeAllListeners(); destroy()\<close>; the manager
  keeps its reference to a destroyed handler.
\<close>

record LogHandler =
  logPath :: string
  activity :: bool
  overrunning :: bool
  destroyed :: bool

record CloudClient =
  accountName :: string
  accountPassword :: string
  guildName :: string

text \<open>
  Every call the manager makes on a collaborator, in the order it makes them. The stage
  entries record which of a stage's three functions ran; \<open>ConsoleInfo\<close> keeps the three
  \<open>console.info\<close> lines of \<open>manage\<close> and \<open>internalManage\<close> that mark a queued call and the
  start of a pass. \<open>RefreshCloudStatus\<close> and \<open>RefreshDiskStatus\<close> are the calls of the two
  methods of that name, which are not awaited and write no member of the manager.
\<close>

datatype event =
  ConsoleInfo string
  | Send ipc_msg
  | AddCrashToUI CrashData
  | StageGet stage_name
  | StageValidate stage_name config
  | StageConfigure stage_name config
  | RecorderStop
  | RecorderStart
  | RecorderCleanup
  | RecorderShutdownOBS
  | RecorderRemoveAllListeners
  | NewRecorder
  | ConfigureBase ObsBaseConfig
  | ConfigureVideoSources ObsVideoConfig
  | ConfigureAudioSources ObsAudioConfig
  | ConfigureOverlaySource ObsOverlayConfig
  | PollerStart
  | PollerReconfigureFlavour FlavourConfig
  | QueueSetCloudClient
  | QueueUnsetCloudClient
  | CloudClientStop
  | CloudClientPoll
  | RefreshCloudStatus
  | RefreshDiskStatus
  | SetTimeout nat nat
  | ClearTimeout nat

record manager =
  active :: bool
  queued :: bool
  configValid :: bool
  configMessage :: string
  reconfiguring :: bool
  retryTimer :: "nat option"
  stages :: "ConfigStage list"
  retailLogHandler :: "LogHandler option"
  classicLogHandler :: "LogHandler option"
  eraLogHandler :: "LogHandler option"
  cloudClient :: "CloudClient option"
  obsState :: ERecordingState
  obsMicState :: MicStatus
  isWowRunning :: bool
  cfgService :: ConfigService
  timers :: "(nat \<times> nat) list"
  nextHandle :: nat
  trace :: "event list"

text \<open>
  \<open>obsState\<close> and \<open>obsMicState\<close> are the public members of \<open>this.recorder\<close>, \<open>isWowRunning\<close>
  the one of \<open>this.poller\<close>, \<open>cfgService\<close> what the \<open>ConfigService\<close> behind \<open>this.cfg\<close> holds
  now (\<open>cfg\<close> names a variable below). \<open>timers\<close> are the pending \<open>setTimeout\<close> handles with
  their delays (the callback is always \<open>manage()\<close>), \<open>nextHandle\<close> the next fresh handle.
\<close>

definition emit :: "event \<Rightarrow> manager \<Rightarrow> manager" where
  "emit ev m = m\<lparr>trace := trace m @ [ev]\<rparr>"

subsection \<open>Status\<close>

definition refreshRecStatus :: "RecStatus \<Rightarrow> string \<Rightarrow> manager \<Rightarrow> manager" where
  "refreshRecStatus status msg m = emit (Send (UpdateRecStatus status (Some msg))) m"

definition refreshMicStatus :: "MicStatus \<Rightarrow> manager \<Rightarrow> manager" where
  "refreshMicStatus status m = emit (Send (UpdateMicStatus status)) m"

text \<open>\<open>handler?.overrunning\<close> and \<open>handler?.activity\<close>: undefined (falsy) without a handler.\<close>

definition optOverrunning :: "LogHandler option \<Rightarrow> bool" where
  "optOverrunning h = (case h of None \<Rightarrow> False | Some x \<Rightarrow> overrunning x)"

definition optActivity :: "LogHandler option \<Rightarrow> bool" where
  "optActivity h = (case h of None \<Rightarrow> False | Some x \<Rightarrow> activity x)"

definition refreshStatus :: "manager \<Rightarrow> manager" where
  "refreshStatus m =
    (if reconfiguring m then emit (Send (UpdateRecStatus Reconfiguring None)) m
     else if \<not> configValid m then refreshRecStatus InvalidConfig (configMessage m) m
     else
       let inOverrun = (optOverrunning (retailLogHandler m)
                        \<or> optOverrunning (classicLogHandler m)
                        \<or> optOverrunning (eraLogHandler m));
           inActivity = (optActivity (retailLogHandler m)
                         \<or> optActivity (classicLogHandler m)
                         \<or> optActivity (eraLogHandler m));
           m1 = (if inOverrun then refreshRecStatus Overrunning [] m
                 else if inActivity then refreshRecStatus RecStatusRecording [] m
                 else if obsState m = Recording then refreshRecStatus ReadyToRecord [] m
                 else if obsState m = Offline \<or> obsState m = Starting
                         \<or> obsState m = Stopping
                      then refreshRecStatus WaitingForWoW [] m
                 else m)
       in refreshMicStatus (obsMicState m1) m1)"


subsection \<open>The environment of a pass\<close>

text \<open>
  Modelled from the spec: \<open>CloudClient.checkAuth\<close> and \<open>getPromiseBomb\<close> are not among the
  sources. The race of the authentication check against the ten-second promise bomb has
  three outcomes: the check resolved with the granted permissions, the check rejected
  with some error, or the bomb went off first and rejected with its reason (a value that
  is not an \<open>AuthError\<close>).
\<close>

datatype race_outcome =
  Resolved bool bool
  | Rejected verror
  | TimedOut

text \<open>
  What a pass reads from outside the manager: the \<open>ConfigService\<close> at the moment stage
  \<open>i\<close> calls \<open>get\<close>, the file system (\<open>fs.existsSync\<close>, \<open>path.dirname\<close>), the helpers of
  \<open>./util\<close> (\<open>exists\<close>, \<open>checkDisk\<close>, \<open>isFolderOwned\<close>, the two \<open>takeOwnership\<close> functions,
  \<open>validateFlavour\<close>; a helper that can throw returns the error) and the outcome of the
  authentication race for an account, a password and a guild.
\<close>

record env =
  cfgAt :: "nat \<Rightarrow> ConfigService"
  existsSync :: "string \<Rightarrow> bool"
  dirname :: "string \<Rightarrow> string"
  pathExists :: "string \<Rightarrow> bool"
  checkDisk :: "string \<Rightarrow> nat \<Rightarrow> verror option"
  isFolderOwned :: "string \<Rightarrow> bool"
  takeOwnershipStorageDir :: "string \<Rightarrow> verror option"
  takeOwnershipBufferDir :: "string \<Rightarrow> verror option"
  validateFlavour :: "FlavourConfig \<Rightarrow> verror option"
  checkAuthRace :: "string \<Rightarrow> string \<Rightarrow> string \<Rightarrow> race_outcome"

subsection \<open>Validation\<close>

text \<open>A validator returns the error it throws, \<open>None\<close> when it returns normally.\<close>

definition validateBaseConfig :: "env \<Rightarrow> ObsBaseConfig \<Rightarrow> verror option" where
  "validateBaseConfig e config =
    (if storagePath config = [] then Some (Error ''Storage path is invalid.'')
     else if \<not> existsSync e (dirname e (storagePath config))
       then Some (Error ''Storage Path is invalid.'')
     else (case checkDisk e (storagePath config) (maxStorage config) of
       Some err \<Rightarrow> Some err
     | None \<Rightarrow>
        (if obsPath config = [] then Some (Error ''Buffer Storage Path is invalid.'')
         else if \<not> pathExists e (dirname e (obsPath config))
           then Some (Error ''Buffer Storage Path is invalid.'')
         else if storagePath config = obsPath config
           then Some (Error ''Storage Path is the same as Buffer Path'')
         else
           (let obsDirExists = pathExists e (obsPath config) in
            (case (if obsDirExists then checkDisk e (obsPath config) 10
                   else checkDisk e (dirname e (obsPath config)) 10) of
               Some err \<Rightarrow> Some err
             | None \<Rightarrow>
                (case (if \<not> isFolderOwned e (storagePath config)
                       then takeOwnershipStorageDir e (storagePath config) else None) of
                   Some err \<Rightarrow> Some err
                 | None \<Rightarrow>
                    (if obsDirExists \<and> \<not> isFolderOwned e (obsPath config)
                     then takeOwnershipBufferDir e (obsPath config) else None)))))))"

definition validateCloudBaseConfig :: "env \<Rightarrow> ObsBaseConfig \<Rightarrow> verror option" where
  "validateCloudBaseConfig e config =
    (if cloudAccountName config = [] then Some (Error ''Account name must not be empty.'')
     else if cloudAccountPassword config = []
       then Some (Error ''Password must not be empty.'')
     else if cloudGuildName config = [] then Some (Error ''Guild name must not be empty.'')
     else (case checkAuthRace e (cloudAccountName config) (cloudAccountPassword config)
                 (cloudGuildName config) of
       Rejected (AuthError msg) \<Rightarrow> Some (AuthError msg)
     | Rejected _ \<Rightarrow>
         Some (RetryableConfigError ''Failed to authenticate with the cloud store.'' 10000)
     | TimedOut \<Rightarrow>
         Some (RetryableConfigError ''Failed to authenticate with the cloud store.'' 10000)
     | Resolved read write \<Rightarrow>
         (if \<not> read then Some (Error ''User is not authorized to access the guild.'')
          else if \<not> write \<and> cloudUpload config
            then Some (Error ''User is not authorized to upload to the guild.'')
          else None)))"

definition validateBaseCfg :: "env \<Rightarrow> ObsBaseConfig \<Rightarrow> verror option" where
  "validateBaseCfg e config =
    (case validateBaseConfig e config of
       Some err \<Rightarrow> Some err
     | None \<Rightarrow> if cloudStorage config then validateCloudBaseConfig e config else None)"

definition validateVideoConfig :: "ObsVideoConfig \<Rightarrow> verror option" where
  "validateVideoConfig config =
    (if obsCaptureMode config = ''window_capture'' \<and> obsWindowName config = []
     then Some (Error (''Must select a window in the scene settings, ''
                       @ ''if none appear, make sure WoW is running.''))
     else None)"

definition endsWith :: "string \<Rightarrow> string \<Rightarrow> bool" where
  "endsWith s t = (length t \<le> length s \<and> drop (length s - length t) s = t)"

definition validateOverlayConfig :: "env \<Rightarrow> ObsOverlayConfig \<Rightarrow> verror option" where
  "validateOverlayConfig e config =
    (if \<not> chatOverlayOwnImage config then None
     else if \<not> overlayCloudStorage config
       then Some (Error ''To use a custom overlay, enable cloud storage.'')
     else if chatOverlayOwnImagePath config = []
       then Some (Error ''Overlay image was not provided for custom overlay.'')
     else if \<not> endsWith (chatOverlayOwnImagePath config) ''.png''
       then Some (Error ''Overlay image must be a PNG file'')
     else if \<not> pathExists e (chatOverlayOwnImagePath config)
       then Some (Error (chatOverlayOwnImagePath config @ '' does not exist''))
     else None)"

text \<open>\<open>stage.validate\<close> of the five stages; the audio stage validates nothing.\<close>

fun stageValidate :: "env \<Rightarrow> config \<Rightarrow> verror option" where
  "stageValidate e (BaseCfg c) = validateBaseCfg e c"
| "stageValidate e (VideoCfg c) = validateVideoConfig c"
| "stageValidate e (AudioCfg c) = None"
| "stageValidate e (FlavCfg c) = validateFlavour e c"
| "stageValidate e (OverlayCfg c) = validateOverlayConfig e c"

subsection \<open>Applying a stage\<close>

text \<open>
  The recorder, the poller, the cloud client and the video queue are not among the
  sources; their methods are recorded in the trace and taken to return normally.
\<close>

definition configureObsBase :: "ObsBaseConfig \<Rightarrow> manager \<Rightarrow> manager" where
  "configureObsBase config m =
    (let m1 = emit RecorderStop m;
         m2 = (if cloudClient m1 \<noteq> None
               then emit QueueUnsetCloudClient ((emit CloudClientStop m1)\<lparr>cloudClient := None\<rparr>)
               else m1);
         m3 = (if cloudStorage config
               then emit QueueSetCloudClient (emit CloudClientPoll
                      (m2\<lparr>cloudClient := Some \<lparr>accountName = cloudAccountName config,
                                                accountPassword = cloudAccountPassword config,
                                                guildName = cloudGuildName config\<rparr>\<rparr>))
               else m2)
     in emit (Send RefreshState) (emit PollerStart (emit (ConfigureBase config)
          (emit RefreshDiskStatus (emit RefreshCloudStatus m3)))))"

definition configureObsVideo :: "ObsVideoConfig \<Rightarrow> manager \<Rightarrow> manager" where
  "configureObsVideo config m = emit (ConfigureVideoSources config) m"

definition configureObsAudio :: "ObsAudioConfig \<Rightarrow> manager \<Rightarrow> manager" where
  "configureObsAudio config m =
    (if isWowRunning m then emit (ConfigureAudioSources config) m else m)"

definition destroyHandler :: "LogHandler option \<Rightarrow> LogHandler option" where
  "destroyHandler h = (case h of None \<Rightarrow> None | Some x \<Rightarrow> Some (x\<lparr>destroyed := True\<rparr>))"

text \<open>
  Modelled from the spec: the log handler classes are not among the sources. A handler
  fresh from its constructor reports no activity and no overrun.
\<close>

definition newLogHandler :: "string \<Rightarrow> LogHandler" where
  "newLogHandler p = \<lparr>logPath = p, activity = False, overrunning = False, destroyed = False\<rparr>"

definition configureFlavour :: "FlavourConfig \<Rightarrow> manager \<Rightarrow> manager" where
  "configureFlavour config m =
    (let m1 = (if obsState m = Recording then emit RecorderStop m else m);
         m2 = m1\<lparr>retailLogHandler := destroyHandler (retailLogHandler m1),
                 classicLogHandler := destroyHandler (classicLogHandler m1),
                 eraLogHandler := destroyHandler (eraLogHandler m1)\<rparr>;
         m3 = (if recordRetail config
               then m2\<lparr>retailLogHandler := Some (newLogHandler (retailLogPath config))\<rparr>
               else m2);
         m4 = (if recordClassic config
               then m3\<lparr>classicLogHandler := Some (newLogHandler (classicLogPath config))\<rparr>
               else m3);
         m5 = (if recordEra config
               then m4\<lparr>eraLogHandler := Some (newLogHandler (eraLogPath config))\<rparr>
               else m4)
     in emit PollerStart (emit (PollerReconfigureFlavour config) m5))"

definition configureObsOverlay :: "ObsOverlayConfig \<Rightarrow> manager \<Rightarrow> manager" where
  "configureObsOverlay config m = emit (ConfigureOverlaySource config) m"

fun stageConfigure :: "config \<Rightarrow> manager \<Rightarrow> manager" where
  "stageConfigure (BaseCfg c) m = configureObsBase c m"
| "stageConfigure (VideoCfg c) m = configureObsVideo c m"
| "stageConfigure (AudioCfg c) m = configureObsAudio c m"
| "stageConfigure (FlavCfg c) m = configureFlavour c m"
| "stageConfigure (OverlayCfg c) m = configureObsOverlay c m"


subsection \<open>A reconciliation pass: \<open>internalManage\<close>\<close>

definition setConfigValid :: "manager \<Rightarrow> manager" where
  "setConfigValid m = refreshStatus (m\<lparr>configValid := True, configMessage := []\<rparr>)"

definition setConfigInvalid :: "string \<Rightarrow> manager \<Rightarrow> manager" where
  "setConfigInvalid reason m =
    refreshStatus (m\<lparr>configValid := False, configMessage := reason\<rparr>)"

text \<open>
  \<open>clearTimeout(handle)\<close> drops the handle from the pending timers (nothing happens when it
  has fired already); \<open>this.retryTimer\<close> keeps the stale handle, as in the source.
\<close>

definition clearTimeout :: "nat \<Rightarrow> manager \<Rightarrow> manager" where
  "clearTimeout h m =
    emit (ClearTimeout h) (m\<lparr>timers := filter (\<lambda>t. fst t \<noteq> h) (timers m)\<rparr>)"

text \<open>\<open>this.retryTimer = setTimeout(() => this.manage(), time)\<close>.\<close>

definition scheduleRetry :: "nat \<Rightarrow> manager \<Rightarrow> manager" where
  "scheduleRetry time m =
    emit (SetTimeout (nextHandle m) time)
      (m\<lparr>retryTimer := Some (nextHandle m),
         timers := timers m @ [(nextHandle m, time)],
         nextHandle := Suc (nextHandle m)\<rparr>)"

text \<open>The statements of \<open>internalManage\<close> before its loop.\<close>

definition passBegin :: "manager \<Rightarrow> manager" where
  "passBegin m =
    (let m1 = refreshStatus
                ((emit (ConsoleInfo ''[Manager] Internal manage'') m)\<lparr>reconfiguring := True\<rparr>)
     in case retryTimer m1 of None \<Rightarrow> m1 | Some h \<Rightarrow> clearTimeout h m1)"

text \<open>The \<open>catch\<close> block of the loop: what the pass does before it returns early.\<close>

definition stageFailed :: "verror \<Rightarrow> manager \<Rightarrow> manager" where
  "stageFailed error m =
    (let m1 = setConfigInvalid (errorString error) (m\<lparr>reconfiguring := False\<rparr>)
     in case error of RetryableConfigError msg time \<Rightarrow> scheduleRetry time m1 | _ \<Rightarrow> m1)"

definition setStage :: "nat \<Rightarrow> ConfigStage \<Rightarrow> manager \<Rightarrow> manager" where
  "setStage i st m = m\<lparr>stages := (stages m)[i := st]\<rparr>"

text \<open>
  One iteration of the loop for the stage at index \<open>i\<close> (the loop only calls it with
  \<open>i < stages.length\<close>): the error \<open>validate\<close> threw, if any, and the manager after it.
\<close>

definition runStage :: "env \<Rightarrow> nat \<Rightarrow> manager \<Rightarrow> verror option \<times> manager" where
  "runStage e i m =
    (let stage = stages m ! i;
         newConfig = stageGet (name stage) (cfgAt e i);
         m1 = emit (StageGet (name stage)) m;
         stageConfigChanged = (newConfig \<noteq> current stage);
         m2 = (if stageConfigChanged then setStage i (stage\<lparr>valid := False\<rparr>) m1 else m1)
     in if \<not> valid (stages m2 ! i) then
          (let m3 = emit (StageValidate (name stage) newConfig) m2 in
           case stageValidate e newConfig of
             Some error \<Rightarrow> (Some error, m3)
           | None \<Rightarrow>
               (let m4 = stageConfigure newConfig
                           (emit (StageConfigure (name stage) newConfig) m3)
                in (None, setStage i ((stages m4 ! i)\<lparr>valid := True, current := newConfig\<rparr>) m4)))
        else (None, m2))"

function stagesLoop :: "env \<Rightarrow> nat \<Rightarrow> manager \<Rightarrow> manager" where
  "stagesLoop e i m =
    (if i < length (stages m) then
       (case runStage e i m of
          (Some error, m') \<Rightarrow> stageFailed error m'
        | (None, m') \<Rightarrow> stagesLoop e (Suc i) m')
     else setConfigValid (m\<lparr>reconfiguring := False\<rparr>))"
  by pat_completeness auto
termination
proof (relation "measure (\<lambda>(e, i, m). length (stages m) - i)", goal_cases)
  case 1
  show ?case by simp
next
  case (2 e i m err m')
  have conf: "length (stages (stageConfigure c x)) = length (stages x)" for c x
    by (cases c)
      (simp_all add: configureObsBase_def configureObsVideo_def configureObsAudio_def
        configureFlavour_def configureObsOverlay_def emit_def Let_def)
  from 2(2) have "length (stages m') = length (stages m)"
    by (auto simp: runStage_def Let_def setStage_def emit_def conf
        split: if_splits option.splits)
  with 2(1) show ?case by simp
qed

declare stagesLoop.simps [simp del]

definition passBody :: "env \<Rightarrow> manager \<Rightarrow> manager" where
  "passBody e m = stagesLoop e 0 m"

definition internalManage :: "env \<Rightarrow> manager \<Rightarrow> manager" where
  "internalManage e m = passBody e (passBegin m)"

subsection \<open>The constructor\<close>

text \<open>
  The field initialisers and the constructor, for a \<open>ConfigService\<close> holding \<open>cfg\<close>.
  \<open>Recorder\<close> and \<open>Poller\<close> are not among the sources: a new \<open>Recorder\<close> is taken to
  start offline with mic status \<open>0\<close> (the spec has a new engine start from defaults), the
  poller not to have seen the game yet.
\<close>

definition newStages :: "ConfigService \<Rightarrow> ConfigStage list" where
  "newStages cfg =
    map (\<lambda>n. \<lparr>name = n, valid = False, current = stageGet n cfg\<rparr>)
      [obsBase, obsVideo, obsAudio, flavour, overlay]"

definition newManager :: "ConfigService \<Rightarrow> manager" where
  "newManager cfg =
    \<lparr>active = False, queued = False, configValid = False, configMessage = [],
     reconfiguring = False, retryTimer = None, stages = newStages cfg,
     retailLogHandler = None, classicLogHandler = None, eraLogHandler = None,
     cloudClient = None, obsState = Offline, obsMicState = 0, isWowRunning = False,
     cfgService = cfg, timers = [], nextHandle = 0, trace = [NewRecorder]\<rparr>"

text \<open>\<open>setInterval(() => this.restartRecorder(), 5 * (1000 * 60))\<close>, in milliseconds.\<close>

definition restartInterval :: nat where
  "restartInterval = 5 * (1000 * 60)"

subsection \<open>A pass in steps\<close>

text \<open>
  \<open>internalManage\<close> is asynchronous. It runs until it awaits the validation of a stage
  (\<open>await stage.validate(newConfig)\<close>), resumes when that settles, runs until it awaits the
  application of the stage (\<open>await stage.configure(newConfig)\<close>), resumes to mark the stage
  valid, and goes on with the next stage. While it is suspended other handlers run. A
  suspended pass holds its stage index and the snapshot it fetched for that stage.
\<close>

datatype pc = AwaitValidate nat config | AwaitConfigure nat config

text \<open>
  The loop body for the stage at index \<open>i\<close> up to the test of its flag: \<open>get\<close> is called on
  what the \<open>ConfigService\<close> holds at that moment.
\<close>

definition fetchStage :: "ConfigService \<Rightarrow> nat \<Rightarrow> manager \<Rightarrow> config \<times> manager" where
  "fetchStage service i m =
    (let stage = stages m ! i;
         newConfig = stageGet (name stage) service;
         m1 = emit (StageGet (name stage)) m;
         stageConfigChanged = (newConfig \<noteq> current stage)
     in (newConfig, if stageConfigChanged then setStage i (stage\<lparr>valid := False\<rparr>) m1 else m1))"

text \<open>
  The calls of \<open>stage.validate\<close> and \<open>stage.configure\<close>, and the two assignments after the
  latter. What \<open>configure\<close> does to the collaborators is recorded at its call; the awaits
  inside \<open>configureObsBase\<close> and \<open>configureFlavour\<close> are not suspension points of their own.
\<close>

definition callValidate :: "nat \<Rightarrow> config \<Rightarrow> manager \<Rightarrow> manager" where
  "callValidate i newConfig m = emit (StageValidate (name (stages m ! i)) newConfig) m"

definition callConfigure :: "nat \<Rightarrow> config \<Rightarrow> manager \<Rightarrow> manager" where
  "callConfigure i newConfig m =
    stageConfigure newConfig (emit (StageConfigure (name (stages m ! i)) newConfig) m)"

definition markValid :: "nat \<Rightarrow> config \<Rightarrow> manager \<Rightarrow> manager" where
  "markValid i newConfig m = setStage i ((stages m ! i)\<lparr>valid := True, current := newConfig\<rparr>) m"

text \<open>
  The loop from stage \<open>i\<close> on, as far as it runs without suspending: it skips the stages
  that are valid and unchanged, and either suspends in the validation of a stage or
  falls out of the loop, and \<open>internalManage\<close> returns (\<open>None\<close>). \<open>service j\<close> is what the
  \<open>ConfigService\<close> holds when stage \<open>j\<close> calls \<open>get\<close>.
\<close>

function advance :: "(nat \<Rightarrow> ConfigService) \<Rightarrow> nat \<Rightarrow> manager \<Rightarrow> manager \<times> pc option" where
  "advance service i m =
    (if i < length (stages m) then
       (case fetchStage (service i) i m of
          (newConfig, m') \<Rightarrow>
            if \<not> valid (stages m' ! i)
            then (callValidate i newConfig m', Some (AwaitValidate i newConfig))
            else advance service (Suc i) m')
     else (setConfigValid (m\<lparr>reconfiguring := False\<rparr>), None))"
  by pat_completeness auto
termination
proof (relation "measure (\<lambda>(service, i, m). length (stages m) - i)", goal_cases)
  case 1
  show ?case by simp
next
  case (2 service i m newConfig m')
  from 2(2) have "length (stages m') = length (stages m)"
    by (auto simp: fetchStage_def Let_def setStage_def emit_def split: if_splits)
  with 2(1) show ?case by simp
qed

declare advance.simps [simp del]

text \<open>
  A suspended pass resumes, \<open>e\<close> being what the checks of the validation found: after the
  validation it either runs the \<open>catch\<close> block and returns, or calls \<open>configure\<close> and
  suspends again; after the application it marks the stage valid and goes on with the
  loop. It resumes at its own stage with the snapshot it fetched, whatever has happened
  to the stage table in between.
\<close>

definition resumePass ::
  "env \<Rightarrow> (nat \<Rightarrow> ConfigService) \<Rightarrow> pc \<Rightarrow> manager \<Rightarrow> manager \<times> pc option" where
  "resumePass e service p m =
    (case p of
       AwaitValidate i newConfig \<Rightarrow>
         (case stageValidate e newConfig of
            Some error \<Rightarrow> (stageFailed error m, None)
          | None \<Rightarrow> (callConfigure i newConfig m, Some (AwaitConfigure i newConfig)))
     | AwaitConfigure i newConfig \<Rightarrow> advance service (Suc i) (markValid i newConfig m))"

text \<open>
  The rest of a suspended pass when every await of it settles in the environment \<open>e\<close> and
  nothing else runs in between. The function \<open>internalManage\<close> above is the pass from its
  start under the same condition (lemmas \<open>advance_rest\<close>, \<open>startPass_rest\<close> and
  \<open>resumePass_rest\<close> below).
\<close>

definition restOfPass :: "env \<Rightarrow> pc \<Rightarrow> manager \<Rightarrow> manager" where
  "restOfPass e p m =
    (case p of
       AwaitValidate i newConfig \<Rightarrow>
         (case stageValidate e newConfig of
            Some error \<Rightarrow> stageFailed error m
          | None \<Rightarrow> stagesLoop e (Suc i) (markValid i newConfig (callConfigure i newConfig m)))
     | AwaitConfigure i newConfig \<Rightarrow> stagesLoop e (Suc i) (markValid i newConfig m))"

subsection \<open>The public entry point and the event loop\<close>

text \<open>
  \<open>manage\<close> is asynchronous as well: it awaits \<open>internalManage\<close> once or twice. A suspended
  invocation of \<open>manage\<close> is a task: which of its two passes it awaits, and where that pass
  is suspended. The system is the manager object and the suspended invocations. When a
  pass returns, \<open>manage\<close> resumes before any other handler runs (the continuation of an
  \<open>await\<close> on a settled promise precedes every timer and event).
\<close>

datatype pass = FirstPass | SecondPass

type_synonym task = "pass \<times> pc"

record system =
  mgr :: manager
  tasks :: "task list"

text \<open>\<open>internalManage\<close> from its first statement to its first suspension or its return.\<close>

definition startPass :: "manager \<Rightarrow> manager \<times> pc option" where
  "startPass m = advance (\<lambda>i. cfgService m) 0 (passBegin m)"

text \<open>
  \<open>manage\<close> after an \<open>await this.internalManage()\<close> that has returned: after the first pass
  it starts the queued pass or clears \<open>active\<close>; after the second it clears \<open>active\<close>.
\<close>

definition resumeManage :: "pass \<Rightarrow> manager \<Rightarrow> manager \<times> task option" where
  "resumeManage p m =
    (case p of
       FirstPass \<Rightarrow>
         (if queued m then
            (case startPass ((emit (ConsoleInfo ''[Manager] Execute a queued manage call'') m)
                               \<lparr>queued := False\<rparr>) of
               (m', Some at) \<Rightarrow> (m', Some (SecondPass, at))
             | (m', None) \<Rightarrow> (m'\<lparr>active := False\<rparr>, None))
          else (m\<lparr>active := False\<rparr>, None))
     | SecondPass \<Rightarrow> (m\<lparr>active := False\<rparr>, None))"

text \<open>A stretch of pass \<open>p\<close> has ended: the pass is suspended again, or \<open>manage\<close> resumes.\<close>

definition settle :: "pass \<Rightarrow> manager \<times> pc option \<Rightarrow> manager \<times> task option" where
  "settle p r = (case r of (m, Some at) \<Rightarrow> (m, Some (p, at)) | (m, None) \<Rightarrow> resumeManage p m)"

text \<open>
  A call of \<open>manage()\<close>, up to its first suspension: it returns at once when \<open>active\<close>,
  and otherwise starts the first pass.
\<close>

definition manage :: "system \<Rightarrow> system" where
  "manage s =
    (if active (mgr s) then
       (if \<not> queued (mgr s)
        then s\<lparr>mgr := (emit (ConsoleInfo ''[Manager] Queued a manage call'') (mgr s))
                        \<lparr>queued := True\<rparr>\<rparr>
        else s)
     else
       (case settle FirstPass (startPass ((mgr s)\<lparr>active := True\<rparr>)) of
          (m, Some t) \<Rightarrow> s\<lparr>mgr := m, tasks := tasks s @ [t]\<rparr>
        | (m, None) \<Rightarrow> s\<lparr>mgr := m\<rparr>))"

definition dropTask :: "nat \<Rightarrow> task list \<Rightarrow> task list" where
  "dropTask k ts = take k ts @ drop (Suc k) ts"

definition putTask :: "nat \<Rightarrow> manager \<times> task option \<Rightarrow> system \<Rightarrow> system" where
  "putTask k r s =
    (case r of
       (m, Some t) \<Rightarrow> s\<lparr>mgr := m, tasks := (tasks s)[k := t]\<rparr>
     | (m, None) \<Rightarrow> s\<lparr>mgr := m, tasks := dropTask k (tasks s)\<rparr>)"

text \<open>
  The await that task \<open>k\<close> is suspended in settles, in the environment \<open>e\<close>, and the task
  runs to its next suspension or to the end of its invocation.
\<close>

definition resume :: "nat \<Rightarrow> env \<Rightarrow> system \<Rightarrow> system" where
  "resume k e s =
    (if k < length (tasks s) then
       (case tasks s ! k of
          (p, at) \<Rightarrow> putTask k (settle p (resumePass e (\<lambda>i. cfgService (mgr s)) at (mgr s))) s)
     else s)"

text \<open>
  The pass that task \<open>k\<close> awaits runs to its end without another handler in between,
  every await of it settling in the environment \<open>e\<close>, and \<open>manage\<close> resumes.
\<close>

definition passCompletes :: "nat \<Rightarrow> env \<Rightarrow> system \<Rightarrow> system" where
  "passCompletes k e s =
    (if k < length (tasks s) then
       (case tasks s ! k of
          (p, at) \<Rightarrow>
            putTask k
              (resumeManage p (restOfPass (e\<lparr>cfgAt := (\<lambda>i. cfgService (mgr s))\<rparr>) at (mgr s))) s)
     else s)"

text \<open>
  \<open>recoverRecorderFromCrash\<close>, first without its last statement (the call of \<open>manage\<close>).
\<close>

definition crashReset :: "CrashData \<Rightarrow> manager \<Rightarrow> manager" where
  "crashReset crashData m =
    (let m1 = emit RecorderShutdownOBS (emit RecorderRemoveAllListeners
                (emit (AddCrashToUI crashData) m));
         m2 = m1\<lparr>retailLogHandler := destroyHandler (retailLogHandler m1),
                 classicLogHandler := destroyHandler (classicLogHandler m1),
                 eraLogHandler := destroyHandler (eraLogHandler m1)\<rparr>;
         m3 = (emit NewRecorder m2)\<lparr>obsState := Offline, obsMicState := 0\<rparr>;
         m4 = m3\<lparr>stages := map (\<lambda>st. st\<lparr>valid := False\<rparr>) (stages m3)\<rparr>
     in m4\<lparr>active := False, queued := False\<rparr>)"

definition recoverRecorderFromCrash :: "CrashData \<Rightarrow> system \<Rightarrow> system" where
  "recoverRecorderFromCrash crashData s = manage (s\<lparr>mgr := crashReset crashData (mgr s)\<rparr>)"

text \<open>The retry timer with handle \<open>h\<close> fires, if it is still pending: its callback is \<open>manage\<close>.\<close>

definition retryTimerFires :: "nat \<Rightarrow> system \<Rightarrow> system" where
  "retryTimerFires h s =
    (if h \<in> fst ` set (timers (mgr s))
     then manage (s\<lparr>mgr := (mgr s)\<lparr>timers := filter (\<lambda>t. fst t \<noteq> h) (timers (mgr s))\<rparr>\<rparr>)
     else s)"

text \<open>The user changes settings: the \<open>ConfigService\<close> holds \<open>service\<close> from now on.\<close>

definition configChanges :: "ConfigService \<Rightarrow> system \<Rightarrow> system" where
  "configChanges service s = s\<lparr>mgr := (mgr s)\<lparr>cfgService := service\<rparr>\<rparr>"

datatype input =
  Manage
  | ConfigChanges ConfigService
  | Resume nat env
  | PassCompletes nat env
  | Crash CrashData
  | RetryTimerFires nat

fun step :: "input \<Rightarrow> system \<Rightarrow> system" where
  "step Manage s = manage s"
| "step (ConfigChanges service) s = configChanges service s"
| "step (Resume k e) s = resume k e s"
| "step (PassCompletes k e) s = passCompletes k e s"
| "step (Crash crashData) s = recoverRecorderFromCrash crashData s"
| "step (RetryTimerFires h) s = retryTimerFires h s"

fun run :: "input list \<Rightarrow> system \<Rightarrow> system" where
  "run [] s = s"
| "run (x # xs) s = run xs (step x s)"

text \<open>The passes started so far, and the passes executing now.\<close>

definition passesStarted :: "manager \<Rightarrow> nat" where
  "passesStarted m = count_list (trace m) (ConsoleInfo ''[Manager] Internal manage'')"

definition passesExecuting :: "system \<Rightarrow> nat" where
  "passesExecuting s = length (tasks s)"

subsection \<open>Game start and the periodic restart\<close>

text \<open>\<open>onWowStarted\<close>, with the \<open>ConfigService\<close> as it is when the game is detected.\<close>

definition onWowStarted :: "ConfigService \<Rightarrow> manager \<Rightarrow> manager" where
  "onWowStarted cfg m =
    emit RecorderStart (emit (ConfigureAudioSources (getObsAudioConfig cfg)) m)"

definition restartRecorder :: "manager \<Rightarrow> manager" where
  "restartRecorder m =
    (if obsState m \<noteq> Recording then m
     else if optActivity (retailLogHandler m) \<or> optActivity (classicLogHandler m)
             \<or> optActivity (eraLogHandler m) then m
     else if optOverrunning (retailLogHandler m) \<or> optOverrunning (classicLogHandler m)
             \<or> optOverrunning (eraLogHandler m) then m
     else emit RecorderStart (emit RecorderCleanup (emit RecorderStop m)))"


section \<open>Notions the statements use\<close>

subsection \<open>Reading the trace\<close>

definition isRecStatus :: "event \<Rightarrow> bool" where
  "isRecStatus ev = (case ev of Send (UpdateRecStatus st msg) \<Rightarrow> True | _ \<Rightarrow> False)"

definition isMicStatus :: "event \<Rightarrow> bool" where
  "isMicStatus ev = (case ev of Send (UpdateMicStatus st) \<Rightarrow> True | _ \<Rightarrow> False)"

definition isStageEvent :: "event \<Rightarrow> bool" where
  "isStageEvent ev =
    (case ev of StageGet n \<Rightarrow> True | StageValidate n c \<Rightarrow> True
     | StageConfigure n c \<Rightarrow> True | _ \<Rightarrow> False)"

definition isSetTimeout :: "event \<Rightarrow> bool" where
  "isSetTimeout ev = (case ev of SetTimeout h t \<Rightarrow> True | _ \<Rightarrow> False)"

definition isAudioSources :: "event \<Rightarrow> bool" where
  "isAudioSources ev = (case ev of ConfigureAudioSources c \<Rightarrow> True | _ \<Rightarrow> False)"

text \<open>What one call of \<open>refreshStatus\<close> sends.\<close>

definition published :: "manager \<Rightarrow> event list" where
  "published m = drop (length (trace m)) (trace (refreshStatus m))"

subsection \<open>The status table of the spec (sections 4.4 and 4.5)\<close>

text \<open>The log handlers the manager holds, and the two derived signals over them.\<close>

definition sources :: "manager \<Rightarrow> LogHandler list" where
  "sources m =
    concat (map (\<lambda>h. case h of None \<Rightarrow> [] | Some x \<Rightarrow> [x])
      [retailLogHandler m, classicLogHandler m, eraLogHandler m])"

definition anyOverrunning :: "manager \<Rightarrow> bool" where
  "anyOverrunning m = list_ex overrunning (sources m)"

definition anyActive :: "manager \<Rightarrow> bool" where
  "anyActive m = list_ex activity (sources m)"

text \<open>
  The six rules of section 4.5 in the spec's words, top to bottom, first match wins; \<open>None\<close>
  when no rule matches.
\<close>

definition compositeStatus ::
  "bool \<Rightarrow> bool \<Rightarrow> bool \<Rightarrow> bool \<Rightarrow> ERecordingState \<Rightarrow> RecStatus option" where
  "compositeStatus isReconfiguring isConfigValid overrun act engine =
    (if isReconfiguring then Some Reconfiguring
     else if \<not> isConfigValid then Some InvalidConfig
     else if overrun then Some Overrunning
     else if act then Some RecStatusRecording
     else if engine = Recording then Some ReadyToRecord
     else if engine \<in> {Offline, Starting, Stopping} then Some WaitingForWoW
     else None)"

subsection \<open>What a pass will do with a stage\<close>

text \<open>
  For the stage at index \<open>j\<close> of the table of \<open>m\<close> in the environment \<open>e\<close>: the snapshot it
  fetches, whether the loop validates it (its flag is cleared or its snapshot changed),
  and whether that validation throws.
\<close>

definition fetched :: "env \<Rightarrow> manager \<Rightarrow> nat \<Rightarrow> config" where
  "fetched e m j = stageGet (name (stages m ! j)) (cfgAt e j)"

definition needsRun :: "env \<Rightarrow> manager \<Rightarrow> nat \<Rightarrow> bool" where
  "needsRun e m j = (\<not> valid (stages m ! j) \<or> fetched e m j \<noteq> current (stages m ! j))"

definition failsAt :: "env \<Rightarrow> manager \<Rightarrow> nat \<Rightarrow> bool" where
  "failsAt e m j = (needsRun e m j \<and> stageValidate e (fetched e m j) \<noteq> None)"

text \<open>The calls of a stage's functions that a stage which does not fail gives rise to.\<close>

definition stageCalls :: "env \<Rightarrow> manager \<Rightarrow> nat \<Rightarrow> event list" where
  "stageCalls e m j =
    (if needsRun e m j
     then [StageGet (name (stages m ! j)),
           StageValidate (name (stages m ! j)) (fetched e m j),
           StageConfigure (name (stages m ! j)) (fetched e m j)]
     else [StageGet (name (stages m ! j))])"

text \<open>
  The stage a successful validation and application leaves at index \<open>j\<close>, and the table
  after the stages from \<open>k\<close> up to \<open>i\<close> have run without a failure: a stage the loop
  validates ends valid with the fetched snapshot, every other stage is as before.
\<close>

definition appliedStage :: "env \<Rightarrow> manager \<Rightarrow> nat \<Rightarrow> ConfigStage" where
  "appliedStage e m j = \<lparr>name = name (stages m ! j), valid = True, current = fetched e m j\<rparr>"

definition stagesAfter :: "env \<Rightarrow> manager \<Rightarrow> nat \<Rightarrow> nat \<Rightarrow> ConfigStage list" where
  "stagesAfter e m k i =
    map (\<lambda>j. if k \<le> j \<and> j < i \<and> needsRun e m j then appliedStage e m j else stages m ! j)
      [0..<length (stages m)]"

text \<open>The members no stage function writes.\<close>

definition sameControl :: "manager \<Rightarrow> manager \<Rightarrow> bool" where
  "sameControl m m1 =
    (active m1 = active m \<and> queued m1 = queued m \<and> configValid m1 = configValid m
     \<and> configMessage m1 = configMessage m \<and> reconfiguring m1 = reconfiguring m
     \<and> retryTimer m1 = retryTimer m \<and> timers m1 = timers m
     \<and> nextHandle m1 = nextHandle m \<and> isWowRunning m1 = isWowRunning m)"

text \<open>The calls of a stage's \<open>validate\<close> and \<open>configure\<close>.\<close>

definition isStageWork :: "event \<Rightarrow> bool" where
  "isStageWork ev =
    (case ev of StageValidate n c \<Rightarrow> True | StageConfigure n c \<Rightarrow> True | _ \<Rightarrow> False)"

text \<open>The inputs that are crash recoveries.\<close>

fun isCrash :: "input \<Rightarrow> bool" where
  "isCrash (Crash crashData) = True"
| "isCrash _ = False"

text \<open>Exactly the suspended invocation that set \<open>active\<close> is there, if any.\<close>

definition singleFlight :: "system \<Rightarrow> bool" where
  "singleFlight s = (length (tasks s) \<le> 1 \<and> (active (mgr s) = (tasks s \<noteq> [])))"

text \<open>Invocation \<open>k\<close> of \<open>manage\<close> is suspended, awaiting its pass \<open>p\<close>.\<close>

definition awaits :: "nat \<Rightarrow> pass \<Rightarrow> system \<Rightarrow> bool" where
  "awaits k p s = (k < length (tasks s) \<and> fst (tasks s ! k) = p)"

text \<open>
  The inputs that call \<open>manage\<close> and leave it to its test of \<open>active\<close>: a trigger, and the
  retry timer when it is pending.
\<close>

fun isCall :: "input \<Rightarrow> system \<Rightarrow> bool" where
  "isCall Manage s = True"
| "isCall (RetryTimerFires h) s = (h \<in> fst ` set (timers (mgr s)))"
| "isCall _ s = False"

text \<open>
  What can happen while invocation \<open>k\<close> is in flight, crash recovery and the progress of
  other suspended invocations aside (there is no other one unless a crash recovery has
  run): calls of \<open>manage\<close>, by a trigger or by the retry timer, changes of the settings,
  and the progress of the invocation itself.
\<close>

fun concerns :: "nat \<Rightarrow> input \<Rightarrow> bool" where
  "concerns k Manage = True"
| "concerns k (ConfigChanges service) = True"
| "concerns k (RetryTimerFires h) = True"
| "concerns k (Resume j e) = (j = k)"
| "concerns k (PassCompletes j e) = (j = k)"
| "concerns k (Crash crashData) = False"

text \<open>Every input of the list is of that kind and arrives while invocation \<open>k\<close> is in flight.\<close>

fun during :: "nat \<Rightarrow> input list \<Rightarrow> system \<Rightarrow> bool" where
  "during k [] s = True"
| "during k (x # xs) s = (k < length (tasks s) \<and> concerns k x \<and> during k xs (step x s))"

text \<open>
  The number of calls of \<open>manage\<close> among the inputs that arrive while invocation \<open>k\<close>
  awaits its first pass.
\<close>

fun callsInFirst :: "nat \<Rightarrow> input list \<Rightarrow> system \<Rightarrow> nat" where
  "callsInFirst k [] s = 0"
| "callsInFirst k (x # xs) s =
    (if isCall x s \<and> awaits k FirstPass s then 1 else 0) + callsInFirst k xs (step x s)"

text \<open>
  Where invocation \<open>k\<close> stands, for the proofs: \<open>ts\<close> are the invocations suspended before
  it started, \<open>b\<close> the passes started before it, \<open>q\<close> whether a call arrived during its
  first pass.
\<close>

definition phaseInv :: "nat \<Rightarrow> task list \<Rightarrow> nat \<Rightarrow> bool \<Rightarrow> system \<Rightarrow> bool" where
  "phaseInv k ts b q t =
    (take k (tasks t) = ts \<and> length ts = k \<and> length (tasks t) \<le> Suc k
     \<and> (awaits k FirstPass t \<longrightarrow>
          active (mgr t) \<and> passesStarted (mgr t) = b + 1 \<and> (q \<longrightarrow> queued (mgr t)))
     \<and> (awaits k SecondPass t \<longrightarrow> active (mgr t) \<and> passesStarted (mgr t) = b + 2)
     \<and> (length (tasks t) = k \<longrightarrow>
          \<not> active (mgr t) \<and> b + 1 \<le> passesStarted (mgr t) \<and> passesStarted (mgr t) \<le> b + 2
          \<and> (q \<longrightarrow> passesStarted (mgr t) = b + 2)))"

subsection \<open>Concrete inputs\<close>

definition exampleConfig :: ConfigService where
  "exampleConfig =
    \<lparr>getObsBaseConfig =
       \<lparr>storagePath = ''D:/wr'', maxStorage = 50, obsPath = ''D:/obs'', cloudStorage = True,
        cloudAccountName = ''acct'', cloudAccountPassword = ''pw'', cloudGuildName = ''guild'',
        cloudUpload = True, baseRest = []\<rparr>,
     getObsVideoConfig =
       \<lparr>obsCaptureMode = ''game_capture'', obsWindowName = [], videoRest = []\<rparr>,
     getObsAudioConfig = \<lparr>audioRest = ''speakers''\<rparr>,
     getFlavourConfig =
       \<lparr>recordRetail = True, retailLogPath = ''D:/wow/Logs'', recordClassic = False,
        classicLogPath = [], recordEra = False, eraLogPath = [], flavourRest = []\<rparr>,
     getOverlayConfig =
       \<lparr>chatOverlayOwnImage = False, chatOverlayOwnImagePath = [],
        overlayCloudStorage = True, overlayRest = []\<rparr>\<rparr>"

text \<open>An environment in which every check passes and the cloud grants read and write.\<close>

definition goodEnv :: "ConfigService \<Rightarrow> env" where
  "goodEnv cfg =
    \<lparr>cfgAt = (\<lambda>i. cfg), existsSync = (\<lambda>p. True), dirname = (\<lambda>p. ''D:/''),
     pathExists = (\<lambda>p. True), checkDisk = (\<lambda>p n. None), isFolderOwned = (\<lambda>p. True),
     takeOwnershipStorageDir = (\<lambda>p. None), takeOwnershipBufferDir = (\<lambda>p. None),
     validateFlavour = (\<lambda>c. None), checkAuthRace = (\<lambda>a p g. Resolved True True)\<rparr>"

text \<open>The same environment with another outcome of the authentication race.\<close>

definition raceEnv :: "ConfigService \<Rightarrow> race_outcome \<Rightarrow> env" where
  "raceEnv cfg r = (goodEnv cfg)\<lparr>checkAuthRace := (\<lambda>a p g. r)\<rparr>"

definition startSystem :: system where
  "startSystem = \<lparr>mgr = newManager exampleConfig, tasks = []\<rparr>"

text \<open>The same settings with window capture selected and no window chosen.\<close>

definition noWindowConfig :: ConfigService where
  "noWindowConfig =
    exampleConfig\<lparr>getObsVideoConfig :=
      \<lparr>obsCaptureMode = ''window_capture'', obsWindowName = [], videoRest = []\<rparr>\<rparr>"

text \<open>A manager whose five stages are all valid for the example settings.\<close>

definition settledManager :: manager where
  "settledManager =
    (newManager exampleConfig)
      \<lparr>stages := map (\<lambda>st. st\<lparr>valid := True\<rparr>) (newStages exampleConfig),
       configValid := True\<rparr>"

text \<open>The example settings after the user moved the storage directory.\<close>

definition movedConfig :: ConfigService where
  "movedConfig =
    exampleConfig\<lparr>getObsBaseConfig := (getObsBaseConfig exampleConfig)\<lparr>storagePath := ''E:/wr''\<rparr>\<rparr>"

section \<open>Status computation\<close>

lemma refreshStatus_fields:
  "active (refreshStatus m) = active m"
  "queued (refreshStatus m) = queued m"
  "configValid (refreshStatus m) = configValid m"
  "configMessage (refreshStatus m) = configMessage m"
  "reconfiguring (refreshStatus m) = reconfiguring m"
  "retryTimer (refreshStatus m) = retryTimer m"
  "stages (refreshStatus m) = stages m"
  "timers (refreshStatus m) = timers m"
  "nextHandle (refreshStatus m) = nextHandle m"
  "isWowRunning (refreshStatus m) = isWowRunning m"
  "obsState (refreshStatus m) = obsState m"
  "obsMicState (refreshStatus m) = obsMicState m"
  by (simp_all add: refreshStatus_def refreshRecStatus_def refreshMicStatus_def emit_def
      Let_def)

lemma sources_signals:
  "anyOverrunning m = (optOverrunning (retailLogHandler m)
      \<or> optOverrunning (classicLogHandler m) \<or> optOverrunning (eraLogHandler m))"
  "anyActive m = (optActivity (retailLogHandler m)
      \<or> optActivity (classicLogHandler m) \<or> optActivity (eraLogHandler m))"
  by (auto simp: anyOverrunning_def anyActive_def sources_def optOverrunning_def
      optActivity_def split: option.splits)

lemma refreshStatus_trace:
  "trace (refreshStatus m) = trace m @
    (if reconfiguring m then [Send (UpdateRecStatus Reconfiguring None)]
     else if \<not> configValid m
       then [Send (UpdateRecStatus InvalidConfig (Some (configMessage m)))]
     else [Send (UpdateRecStatus
                  (if anyOverrunning m then Overrunning
                   else if anyActive m then RecStatusRecording
                   else if obsState m = Recording then ReadyToRecord
                   else WaitingForWoW) (Some [])),
           Send (UpdateMicStatus (obsMicState m))])"
proof -
  have engine: "obsState m = Offline \<or> obsState m = Starting \<or> obsState m = Stopping"
    if "obsState m \<noteq> Recording"
    using that by (cases "obsState m") simp_all
  show ?thesis
    using engine
    by (simp add: refreshStatus_def refreshRecStatus_def refreshMicStatus_def emit_def
        Let_def sources_signals [symmetric])
qed

lemma published_eq:
  "published m =
    (if reconfiguring m then [Send (UpdateRecStatus Reconfiguring None)]
     else if \<not> configValid m
       then [Send (UpdateRecStatus InvalidConfig (Some (configMessage m)))]
     else [Send (UpdateRecStatus
                  (if anyOverrunning m then Overrunning
                   else if anyActive m then RecStatusRecording
                   else if obsState m = Recording then ReadyToRecord
                   else WaitingForWoW) (Some [])),
           Send (UpdateMicStatus (obsMicState m))])"
  by (simp add: published_def refreshStatus_trace)


text \<open>
  Claim C6. \<open>refreshStatus\<close> sends exactly one recorder status, the one the priority table
  of section 4.5 selects, first match wins: Reconfiguring when \<open>reconfiguring\<close>; else
  InvalidConfig with the stored message when the configuration is not valid; else
  Overrunning when a log handler overruns; else Recording when a log handler is in an
  activity; else ReadyToRecord when the engine records; else WaitingForWoW for the engine
  states Offline, Starting and Stopping. The table always selects a status.
\<close>

theorem refreshStatus_priority:
  "filter isRecStatus (published m) =
     (case compositeStatus (reconfiguring m) (configValid m) (anyOverrunning m)
             (anyActive m) (obsState m) of
        None \<Rightarrow> []
      | Some st \<Rightarrow>
          [Send (UpdateRecStatus st
                  (if st = Reconfiguring then None
                   else if st = InvalidConfig then Some (configMessage m)
                   else Some []))])
   \<and> compositeStatus (reconfiguring m) (configValid m) (anyOverrunning m)
         (anyActive m) (obsState m) \<noteq> None"
proof -
  have engine: "obsState m = Offline \<or> obsState m = Starting \<or> obsState m = Stopping"
    if "obsState m \<noteq> Recording"
    using that by (cases "obsState m") simp_all
  show ?thesis
    using engine
    by (auto simp: published_eq compositeStatus_def isRecStatus_def)
qed

theorem refreshStatus_priority_witness:
  "filter isRecStatus
     (published ((newManager exampleConfig)
        \<lparr>reconfiguring := True,
         retailLogHandler := Some \<lparr>logPath = ''D:/wow/Logs'', activity = True,
                                    overrunning = True, destroyed = False\<rparr>\<rparr>))
   = [Send (UpdateRecStatus Reconfiguring None)]"
  using refreshStatus_priority
    [of "(newManager exampleConfig)
        \<lparr>reconfiguring := True,
         retailLogHandler := Some \<lparr>logPath = ''D:/wow/Logs'', activity = True,
                                    overrunning = True, destroyed = False\<rparr>\<rparr>"]
  by (simp add: compositeStatus_def)

text \<open>
  Claim C7, as stated, fails: right after construction the configuration is not valid,
  and \<open>refreshStatus\<close> returns after sending InvalidConfig, without a mic status; likewise
  while reconfiguring.
\<close>

theorem refreshStatus_mic_counterexample:
  "filter isMicStatus (published (newManager exampleConfig)) = []
   \<and> filter isMicStatus (published ((newManager exampleConfig)\<lparr>reconfiguring := True\<rparr>)) = []"
  by (simp add: published_eq newManager_def isMicStatus_def)

text \<open>
  Claim C7, amended. \<open>refreshStatus\<close> sends the mic status of the recorder, after the
  recorder status, whenever the manager is not reconfiguring and the configuration is
  valid; in the Reconfiguring and InvalidConfig cases it sends no mic status. The
  recorder status it sends never depends on the mic status.
\<close>

theorem refreshStatus_mic:
  "filter isMicStatus (published m) =
     (if reconfiguring m \<or> \<not> configValid m then []
      else [Send (UpdateMicStatus (obsMicState m))])
   \<and> (if reconfiguring m \<or> \<not> configValid m then True
       else last (published m) = Send (UpdateMicStatus (obsMicState m)))
   \<and> filter isRecStatus (published (m\<lparr>obsMicState := x\<rparr>)) = filter isRecStatus (published m)"
  by (simp add: published_eq isMicStatus_def isRecStatus_def sources_signals)

theorem refreshStatus_mic_witness:
  "filter isMicStatus
     (published ((newManager exampleConfig)\<lparr>configValid := True, obsMicState := 2\<rparr>))
   = [Send (UpdateMicStatus 2)]"
  using refreshStatus_mic
    [of "(newManager exampleConfig)\<lparr>configValid := True, obsMicState := 2\<rparr>"]
  by (simp add: newManager_def)

section \<open>The periodic restart\<close>

text \<open>
  Claim C9. The restart timer ticks every five minutes (300000 ms). A tick changes
  nothing unless the engine state is Recording and no log handler reports an activity or
  an overrun; when it is eligible, it calls stop, cleanup and start on the recorder, in
  that order, and nothing else.
\<close>

theorem restartRecorder_safe:
  "restartInterval = 5 * 60 * 1000
   \<and> restartRecorder m =
       (if obsState m = Recording \<and> \<not> anyActive m \<and> \<not> anyOverrunning m
        then m\<lparr>trace := trace m @ [RecorderStop, RecorderCleanup, RecorderStart]\<rparr>
        else m)"
  by (simp add: restartInterval_def restartRecorder_def emit_def sources_signals)

theorem restartRecorder_safe_witness:
  "trace (restartRecorder ((newManager exampleConfig)\<lparr>obsState := Recording\<rparr>))
     = [NewRecorder, RecorderStop, RecorderCleanup, RecorderStart]
   \<and> restartRecorder ((newManager exampleConfig)
        \<lparr>obsState := Recording,
         retailLogHandler := Some \<lparr>logPath = ''D:/wow/Logs'', activity = True,
                                    overrunning = False, destroyed = False\<rparr>\<rparr>)
     = (newManager exampleConfig)
        \<lparr>obsState := Recording,
         retailLogHandler := Some \<lparr>logPath = ''D:/wow/Logs'', activity = True,
                                    overrunning = False, destroyed = False\<rparr>\<rparr>"
  using restartRecorder_safe [of "(newManager exampleConfig)\<lparr>obsState := Recording\<rparr>"]
    restartRecorder_safe
      [of "(newManager exampleConfig)
        \<lparr>obsState := Recording,
         retailLogHandler := Some \<lparr>logPath = ''D:/wow/Logs'', activity = True,
                                    overrunning = False, destroyed = False\<rparr>\<rparr>"]
  by (simp add: newManager_def sources_signals optActivity_def optOverrunning_def)


section \<open>The stage loop\<close>

lemma stageConfigure_fields:
  "stages (stageConfigure c x) = stages x"
  "active (stageConfigure c x) = active x"
  "queued (stageConfigure c x) = queued x"
  "configValid (stageConfigure c x) = configValid x"
  "configMessage (stageConfigure c x) = configMessage x"
  "reconfiguring (stageConfigure c x) = reconfiguring x"
  "retryTimer (stageConfigure c x) = retryTimer x"
  "timers (stageConfigure c x) = timers x"
  "nextHandle (stageConfigure c x) = nextHandle x"
  "isWowRunning (stageConfigure c x) = isWowRunning x"
  by (cases c; simp add: configureObsBase_def configureObsVideo_def configureObsAudio_def
        configureFlavour_def configureObsOverlay_def emit_def Let_def)+

lemma stageConfigure_trace:
  "filter isStageEvent (trace (stageConfigure c x)) = filter isStageEvent (trace x)"
  "filter isSetTimeout (trace (stageConfigure c x)) = filter isSetTimeout (trace x)"
  "count_list (trace (stageConfigure c x)) (ConsoleInfo t) = count_list (trace x) (ConsoleInfo t)"
  by (cases c; simp add: configureObsBase_def configureObsVideo_def configureObsAudio_def
        configureFlavour_def configureObsOverlay_def emit_def Let_def isStageEvent_def
        isSetTimeout_def)+

lemma stageConfigure_audio:
  "filter isAudioSources (trace (stageConfigure c x)) =
     filter isAudioSources (trace x) @
       (case c of AudioCfg a \<Rightarrow> if isWowRunning x then [ConfigureAudioSources a] else []
        | _ \<Rightarrow> [])"
  by (cases c; simp add: configureObsBase_def configureObsVideo_def configureObsAudio_def
        configureFlavour_def configureObsOverlay_def emit_def Let_def isAudioSources_def)

lemma valid_False_id: "\<not> valid st \<Longrightarrow> st\<lparr>valid := False\<rparr> = st"
  by simp

lemma stage_clear_id: "\<not> valid (xs ! j) \<Longrightarrow> xs[j := (xs ! j)\<lparr>valid := False\<rparr>] = xs"
  by (simp add: valid_False_id)

lemma stage_set_all:
  "st\<lparr>valid := v, current := c\<rparr> = \<lparr>name = name st, valid = v, current = c\<rparr>"
  by simp

lemma runStage_skip:
  "\<not> needsRun e m j \<Longrightarrow> runStage e j m = (None, emit (StageGet (name (stages m ! j))) m)"
  by (simp add: runStage_def needsRun_def fetched_def Let_def emit_def)

lemma runStage_fail:
  assumes "j < length (stages m)" "needsRun e m j" "stageValidate e (fetched e m j) = Some err"
  shows "runStage e j m =
    (Some err, m\<lparr>stages := (stages m)[j := (stages m ! j)\<lparr>valid := False\<rparr>],
                 trace := trace m @ [StageGet (name (stages m ! j)),
                                     StageValidate (name (stages m ! j)) (fetched e m j)]\<rparr>)"
  using assms
  by (auto simp: runStage_def needsRun_def fetched_def Let_def emit_def setStage_def
      stage_clear_id)

lemma runStage_ok:
  assumes "j < length (stages m)" "needsRun e m j" "stageValidate e (fetched e m j) = None"
  shows "runStage e j m =
    (None, setStage j \<lparr>name = name (stages m ! j), valid = True, current = fetched e m j\<rparr>
       (stageConfigure (fetched e m j)
          (m\<lparr>stages := (stages m)[j := (stages m ! j)\<lparr>valid := False\<rparr>],
             trace := trace m @ [StageGet (name (stages m ! j)),
                                 StageValidate (name (stages m ! j)) (fetched e m j),
                                 StageConfigure (name (stages m ! j)) (fetched e m j)]\<rparr>)))"
  using assms
  by (auto simp: runStage_def needsRun_def fetched_def Let_def emit_def setStage_def
      stageConfigure_fields stage_clear_id stage_set_all)


lemma length_stagesAfter: "length (stagesAfter e m k i) = length (stages m)"
  by (simp add: stagesAfter_def)

lemma nth_stagesAfter:
  "j < length (stages m) \<Longrightarrow>
   stagesAfter e m k i ! j =
     (if k \<le> j \<and> j < i \<and> needsRun e m j then appliedStage e m j else stages m ! j)"
  by (simp add: stagesAfter_def)

lemma stagesAfter_empty: "stagesAfter e m k k = stages m"
  by (rule nth_equalityI) (auto simp: length_stagesAfter nth_stagesAfter)

lemma stagesAfter_one:
  "stagesAfter e m k (Suc k) =
    (if needsRun e m k then (stages m)[k := appliedStage e m k] else stages m)"
proof (rule nth_equalityI)
  show "length (stagesAfter e m k (Suc k)) =
    length (if needsRun e m k then (stages m)[k := appliedStage e m k] else stages m)"
    by (simp add: length_stagesAfter)
next
  fix j assume "j < length (stagesAfter e m k (Suc k))"
  then have j: "j < length (stages m)" by (simp add: length_stagesAfter)
  show "stagesAfter e m k (Suc k) ! j =
    (if needsRun e m k then (stages m)[k := appliedStage e m k] else stages m) ! j"
    using j by (cases "j = k") (auto simp: nth_stagesAfter)
qed

lemma runStage_pass:
  assumes k: "k < length (stages m)" and ok: "\<not> failsAt e m k"
  shows "\<exists>m1. runStage e k m = (None, m1)
           \<and> stages m1 = stagesAfter e m k (Suc k)
           \<and> filter isStageEvent (trace m1) = filter isStageEvent (trace m) @ stageCalls e m k
           \<and> filter isSetTimeout (trace m1) = filter isSetTimeout (trace m)
           \<and> sameControl m m1"
proof (cases "needsRun e m k")
  case False
  have "stages m = stagesAfter e m k (Suc k)"
    using False by (simp add: stagesAfter_one)
  then show ?thesis
    using False
    by (simp add: runStage_skip emit_def stageCalls_def isStageEvent_def isSetTimeout_def
        sameControl_def)
next
  case True
  with ok have v: "stageValidate e (fetched e m k) = None"
    by (simp add: failsAt_def)
  have "(stages m)[k := appliedStage e m k] = stagesAfter e m k (Suc k)"
    using True by (simp add: stagesAfter_one)
  then show ?thesis
    using True
    by (simp add: runStage_ok [OF k True v] setStage_def stageConfigure_fields
        stageConfigure_trace stageCalls_def isStageEvent_def isSetTimeout_def
        sameControl_def appliedStage_def)
qed

lemma failsAt_cong:
  "stages m1 ! j = stages m ! j \<Longrightarrow> failsAt e m1 j = failsAt e m j"
  "stages m1 ! j = stages m ! j \<Longrightarrow> needsRun e m1 j = needsRun e m j"
  "stages m1 ! j = stages m ! j \<Longrightarrow> fetched e m1 j = fetched e m j"
  "stages m1 ! j = stages m ! j \<Longrightarrow> stageCalls e m1 j = stageCalls e m j"
  "stages m1 ! j = stages m ! j \<Longrightarrow> appliedStage e m1 j = appliedStage e m j"
  by (simp_all add: failsAt_def needsRun_def fetched_def stageCalls_def appliedStage_def)

lemma sameControl_trans: "sameControl m m1 \<Longrightarrow> sameControl m1 m2 \<Longrightarrow> sameControl m m2"
  by (simp add: sameControl_def)

lemma loop_prefix:
  assumes "k \<le> i" "i \<le> length (stages m)" "\<forall>j. k \<le> j \<and> j < i \<longrightarrow> \<not> failsAt e m j"
  shows "\<exists>m1. stagesLoop e k m = stagesLoop e i m1
           \<and> stages m1 = stagesAfter e m k i
           \<and> filter isStageEvent (trace m1) =
               filter isStageEvent (trace m) @ concat (map (stageCalls e m) [k..<i])
           \<and> filter isSetTimeout (trace m1) = filter isSetTimeout (trace m)
           \<and> sameControl m m1"
  using assms
proof (induction "i - k" arbitrary: k m)
  case 0
  then have "k = i" by simp
  then show ?case
    by (auto simp: stagesAfter_empty sameControl_def intro!: exI [of _ m])
next
  case (Suc d)
  then have lt: "k < i" and len: "k < length (stages m)" by simp_all
  from Suc.prems lt have "\<not> failsAt e m k" by simp
  from runStage_pass [OF len this] obtain m1 where
    r: "runStage e k m = (None, m1)" and
    st1: "stages m1 = stagesAfter e m k (Suc k)" and
    ev1: "filter isStageEvent (trace m1) = filter isStageEvent (trace m) @ stageCalls e m k" and
    to1: "filter isSetTimeout (trace m1) = filter isSetTimeout (trace m)" and
    sc1: "sameControl m m1"
    by blast
  have len1: "length (stages m1) = length (stages m)"
    by (simp add: st1 length_stagesAfter)
  have same: "stages m1 ! j = stages m ! j" if "Suc k \<le> j" "j < length (stages m)" for j
    using that by (simp add: st1 nth_stagesAfter)
  have first: "stagesLoop e k m = stagesLoop e (Suc k) m1"
    using len r by (subst stagesLoop.simps) simp
  have d: "d = i - Suc k" using Suc.hyps(2) by simp
  have le: "Suc k \<le> i" using lt by simp
  have i1: "i \<le> length (stages m1)" using Suc.prems(2) len1 by simp
  have cong: "failsAt e m1 j = failsAt e m j" "needsRun e m1 j = needsRun e m j"
    "stageCalls e m1 j = stageCalls e m j" "appliedStage e m1 j = appliedStage e m j"
    if "Suc k \<le> j" "j < length (stages m)" for j
    using same [OF that] by (rule failsAt_cong)+
  have nf: "\<forall>j. Suc k \<le> j \<and> j < i \<longrightarrow> \<not> failsAt e m1 j"
    using Suc.prems(2,3) cong(1) by auto
  from Suc.hyps(1) [OF d le i1 nf] obtain m2 where
    l2: "stagesLoop e (Suc k) m1 = stagesLoop e i m2" and
    st2: "stages m2 = stagesAfter e m1 (Suc k) i" and
    ev2: "filter isStageEvent (trace m2) =
            filter isStageEvent (trace m1) @ concat (map (stageCalls e m1) [Suc k..<i])" and
    to2: "filter isSetTimeout (trace m2) = filter isSetTimeout (trace m1)" and
    sc2: "sameControl m1 m2"
    by blast
  have calls: "map (stageCalls e m1) [Suc k..<i] = map (stageCalls e m) [Suc k..<i]"
    using cong(3) Suc.prems(2) by auto
  have st: "stages m2 = stagesAfter e m k i"
  proof (rule nth_equalityI)
    show "length (stages m2) = length (stagesAfter e m k i)"
      by (simp add: st2 length_stagesAfter len1)
  next
    fix j assume "j < length (stages m2)"
    then have j: "j < length (stages m)" by (simp add: st2 length_stagesAfter len1)
    show "stages m2 ! j = stagesAfter e m k i ! j"
    proof (cases "Suc k \<le> j")
      case True
      then show ?thesis
        using j same [OF True j] len1 cong(2,4) [OF True j]
        by (simp add: st2 nth_stagesAfter)
    next
      case False
      then show ?thesis
        using j len1 lt by (auto simp: st2 nth_stagesAfter st1)
    qed
  qed
  have "[k..<i] = k # [Suc k..<i]" using lt by (simp add: upt_conv_Cons)
  then have ev: "filter isStageEvent (trace m2) =
      filter isStageEvent (trace m) @ concat (map (stageCalls e m) [k..<i])"
    by (simp add: ev2 ev1 calls)
  show ?case
    using first l2 st ev to1 to2 sameControl_trans [OF sc1 sc2] by auto
qed


lemma setConfigValid_fields:
  "active (setConfigValid m) = active m"
  "queued (setConfigValid m) = queued m"
  "configValid (setConfigValid m) = True"
  "configMessage (setConfigValid m) = []"
  "reconfiguring (setConfigValid m) = reconfiguring m"
  "retryTimer (setConfigValid m) = retryTimer m"
  "stages (setConfigValid m) = stages m"
  "timers (setConfigValid m) = timers m"
  "nextHandle (setConfigValid m) = nextHandle m"
  "isWowRunning (setConfigValid m) = isWowRunning m"
  by (simp_all add: setConfigValid_def refreshStatus_fields)

lemma refreshStatus_filters:
  "filter isStageEvent (trace (refreshStatus m)) = filter isStageEvent (trace m)"
  "filter isSetTimeout (trace (refreshStatus m)) = filter isSetTimeout (trace m)"
  "filter isAudioSources (trace (refreshStatus m)) = filter isAudioSources (trace m)"
  "count_list (trace (refreshStatus m)) (ConsoleInfo t) = count_list (trace m) (ConsoleInfo t)"
  by (simp_all add: refreshStatus_trace isStageEvent_def isSetTimeout_def isAudioSources_def)

lemma setConfigValid_filters:
  "filter isStageEvent (trace (setConfigValid m)) = filter isStageEvent (trace m)"
  "filter isSetTimeout (trace (setConfigValid m)) = filter isSetTimeout (trace m)"
  "filter isAudioSources (trace (setConfigValid m)) = filter isAudioSources (trace m)"
  "count_list (trace (setConfigValid m)) (ConsoleInfo t) = count_list (trace m) (ConsoleInfo t)"
  by (simp_all add: setConfigValid_def refreshStatus_filters)

lemma stageFailed_fields:
  "active (stageFailed err m) = active m"
  "queued (stageFailed err m) = queued m"
  "configValid (stageFailed err m) = False"
  "configMessage (stageFailed err m) = errorString err"
  "reconfiguring (stageFailed err m) = False"
  "stages (stageFailed err m) = stages m"
  "isWowRunning (stageFailed err m) = isWowRunning m"
  "retryTimer (stageFailed err m) =
     (case err of RetryableConfigError msg t \<Rightarrow> Some (nextHandle m) | _ \<Rightarrow> retryTimer m)"
  "timers (stageFailed err m) =
     timers m @ (case err of RetryableConfigError msg t \<Rightarrow> [(nextHandle m, t)] | _ \<Rightarrow> [])"
  by (cases err; simp add: stageFailed_def setConfigInvalid_def scheduleRetry_def
      refreshStatus_fields emit_def Let_def)+

lemma stageFailed_filters:
  "filter isStageEvent (trace (stageFailed err m)) = filter isStageEvent (trace m)"
  "filter isSetTimeout (trace (stageFailed err m)) =
     filter isSetTimeout (trace m)
       @ (case err of RetryableConfigError msg t \<Rightarrow> [SetTimeout (nextHandle m) t] | _ \<Rightarrow> [])"
  "filter isAudioSources (trace (stageFailed err m)) = filter isAudioSources (trace m)"
  "count_list (trace (stageFailed err m)) (ConsoleInfo t) = count_list (trace m) (ConsoleInfo t)"
  by (cases err; simp add: stageFailed_def setConfigInvalid_def scheduleRetry_def
      refreshStatus_fields refreshStatus_filters emit_def Let_def isStageEvent_def
      isSetTimeout_def isAudioSources_def)+

lemma passBegin_fields:
  "active (passBegin m) = active m"
  "queued (passBegin m) = queued m"
  "configValid (passBegin m) = configValid m"
  "configMessage (passBegin m) = configMessage m"
  "reconfiguring (passBegin m) = True"
  "retryTimer (passBegin m) = retryTimer m"
  "stages (passBegin m) = stages m"
  "nextHandle (passBegin m) = nextHandle m"
  "isWowRunning (passBegin m) = isWowRunning m"
  "timers (passBegin m) = filter (\<lambda>t. Some (fst t) \<noteq> retryTimer m) (timers m)"
  by (cases "retryTimer m"; simp add: passBegin_def refreshStatus_fields clearTimeout_def
      emit_def Let_def)+

lemma passBegin_filters:
  "filter isStageEvent (trace (passBegin m)) = filter isStageEvent (trace m)"
  "filter isSetTimeout (trace (passBegin m)) = filter isSetTimeout (trace m)"
  "filter isAudioSources (trace (passBegin m)) = filter isAudioSources (trace m)"
  "passesStarted (passBegin m) = Suc (passesStarted m)"
  by (cases "retryTimer m"; simp add: passBegin_def refreshStatus_fields refreshStatus_filters
      clearTimeout_def emit_def Let_def isStageEvent_def isSetTimeout_def isAudioSources_def
      passesStarted_def)+

lemma runStage_control:
  assumes "runStage e j m = (r, m1)"
  shows "active m1 = active m" "queued m1 = queued m" "isWowRunning m1 = isWowRunning m"
    "count_list (trace m1) (ConsoleInfo t) = count_list (trace m) (ConsoleInfo t)"
    "length (stages m1) = length (stages m)"
    "take j (stages m1) = take j (stages m)"
    "\<not> isWowRunning m \<Longrightarrow>
       filter isAudioSources (trace m1) = filter isAudioSources (trace m)"
  using assms
  by (auto simp: runStage_def Let_def setStage_def emit_def stageConfigure_fields
      stageConfigure_trace stageConfigure_audio isAudioSources_def
      split: if_splits option.splits config.splits)

lemma loop_control:
  "active (stagesLoop e k m) = active m \<and> queued (stagesLoop e k m) = queued m
   \<and> isWowRunning (stagesLoop e k m) = isWowRunning m
   \<and> passesStarted (stagesLoop e k m) = passesStarted m
   \<and> length (stages (stagesLoop e k m)) = length (stages m)
   \<and> take k (stages (stagesLoop e k m)) = take k (stages m)"
proof (induction e k m rule: stagesLoop.induct)
  case (1 e i m)
  show ?case
  proof (cases "i < length (stages m)")
    case False
    then show ?thesis
      by (simp add: stagesLoop.simps [of e i m] setConfigValid_fields setConfigValid_filters
          passesStarted_def)
  next
    case True
    obtain r m1 where r: "runStage e i m = (r, m1)"
      by (cases "runStage e i m")
    note c = runStage_control [OF r]
    show ?thesis
    proof (cases r)
      case (Some err)
      then show ?thesis
        using True r c(1,2,3,5,6) c(4) [of "''[Manager] Internal manage''"]
        by (simp add: stagesLoop.simps [of e i m] stageFailed_fields stageFailed_filters
            passesStarted_def)
    next
      case None
      from "1.IH" [OF True r [symmetric] None]
      have ih: "active (stagesLoop e (Suc i) m1) = active m1"
        "queued (stagesLoop e (Suc i) m1) = queued m1"
        "isWowRunning (stagesLoop e (Suc i) m1) = isWowRunning m1"
        "passesStarted (stagesLoop e (Suc i) m1) = passesStarted m1"
        "length (stages (stagesLoop e (Suc i) m1)) = length (stages m1)"
        "take (Suc i) (stages (stagesLoop e (Suc i) m1)) = take (Suc i) (stages m1)"
        by simp_all
      have "take i (take (Suc i) (stages (stagesLoop e (Suc i) m1))) =
            take i (take (Suc i) (stages m1))"
        using ih(6) by simp
      then have t: "take i (stages (stagesLoop e (Suc i) m1)) = take i (stages m1)"
        by (simp add: min_def)
      show ?thesis
        using True r None ih(1-5) t c(1,2,3,5,6) c(4) [of "''[Manager] Internal manage''"]
        by (simp add: stagesLoop.simps [of e i m] passesStarted_def)
    qed
  qed
qed

lemma loop_audio:
  "\<not> isWowRunning m \<Longrightarrow>
   filter isAudioSources (trace (stagesLoop e k m)) = filter isAudioSources (trace m)"
proof (induction e k m rule: stagesLoop.induct)
  case (1 e i m)
  show ?case
  proof (cases "i < length (stages m)")
    case False
    then show ?thesis
      by (simp add: stagesLoop.simps [of e i m] setConfigValid_filters)
  next
    case True
    obtain r m1 where r: "runStage e i m = (r, m1)"
      by (cases "runStage e i m")
    note c = runStage_control [OF r]
    show ?thesis
    proof (cases r)
      case (Some err)
      then show ?thesis
        using True r c(7) "1.prems"
        by (simp add: stagesLoop.simps [of e i m] stageFailed_filters)
    next
      case None
      have "\<not> isWowRunning m1" using c(3) "1.prems" by simp
      from "1.IH" [OF True r [symmetric] None this]
      show ?thesis
        using True r None c(7) "1.prems"
        by (simp add: stagesLoop.simps [of e i m])
    qed
  qed
qed

section \<open>A whole pass\<close>

lemma loop_done:
  "\<not> i < length (stages m) \<Longrightarrow>
   stagesLoop e i m = setConfigValid (m\<lparr>reconfiguring := False\<rparr>)"
  by (simp add: stagesLoop.simps [of e i m])

lemma loop_fail:
  assumes "i < length (stages m)" "needsRun e m i" "stageValidate e (fetched e m i) = Some err"
  shows "stagesLoop e i m =
    stageFailed err
      (m\<lparr>stages := (stages m)[i := (stages m ! i)\<lparr>valid := False\<rparr>],
         trace := trace m @ [StageGet (name (stages m ! i)),
                             StageValidate (name (stages m ! i)) (fetched e m i)]\<rparr>)"
  using assms by (simp add: stagesLoop.simps [of e i m] runStage_fail)

lemma same_stages:
  assumes "stages m1 = stages m"
  shows "failsAt e m1 j = failsAt e m j" "needsRun e m1 j = needsRun e m j"
    "fetched e m1 j = fetched e m j" "stageCalls e m1 j = stageCalls e m j"
    "stagesAfter e m1 k i = stagesAfter e m k i"
  using assms
  by (simp_all add: failsAt_def needsRun_def fetched_def stageCalls_def stagesAfter_def
      appliedStage_def)

lemma pass_fail:
  assumes i: "i < length (stages m)" and before: "\<forall>j<i. \<not> failsAt e m j"
    and run: "needsRun e m i" and err: "stageValidate e (fetched e m i) = Some err"
  shows "stages (internalManage e m) =
           (stagesAfter e m 0 i)[i := (stages m ! i)\<lparr>valid := False\<rparr>]
    \<and> configValid (internalManage e m) = False
    \<and> configMessage (internalManage e m) = errorString err
    \<and> reconfiguring (internalManage e m) = False
    \<and> filter isStageEvent (trace (internalManage e m)) =
        filter isStageEvent (trace m) @ concat (map (stageCalls e m) [0..<i])
          @ [StageGet (name (stages m ! i)), StageValidate (name (stages m ! i)) (fetched e m i)]
    \<and> filter isSetTimeout (trace (internalManage e m)) =
        filter isSetTimeout (trace m)
          @ (case err of RetryableConfigError msg t \<Rightarrow> [SetTimeout (nextHandle m) t] | _ \<Rightarrow> [])
    \<and> timers (internalManage e m) =
        filter (\<lambda>t. Some (fst t) \<noteq> retryTimer m) (timers m)
          @ (case err of RetryableConfigError msg t \<Rightarrow> [(nextHandle m, t)] | _ \<Rightarrow> [])
    \<and> retryTimer (internalManage e m) =
        (case err of RetryableConfigError msg t \<Rightarrow> Some (nextHandle m) | _ \<Rightarrow> retryTimer m)"
proof -
  let ?m0 = "passBegin m"
  have s0: "stages ?m0 = stages m" by (simp add: passBegin_fields)
  note eq0 = same_stages [OF s0]
  have "\<forall>j. 0 \<le> j \<and> j < i \<longrightarrow> \<not> failsAt e ?m0 j"
    using before by (simp add: eq0)
  moreover have "i \<le> length (stages ?m0)" using i by (simp add: s0)
  ultimately obtain m1 where
    l: "stagesLoop e 0 ?m0 = stagesLoop e i m1" and
    st: "stages m1 = stagesAfter e ?m0 0 i" and
    ev: "filter isStageEvent (trace m1) =
           filter isStageEvent (trace ?m0) @ concat (map (stageCalls e ?m0) [0..<i])" and
    to: "filter isSetTimeout (trace m1) = filter isSetTimeout (trace ?m0)" and
    sc: "sameControl ?m0 m1"
    using loop_prefix [of 0 i ?m0 e] by blast
  have st': "stages m1 = stagesAfter e m 0 i" by (simp add: st eq0)
  have len: "length (stages m1) = length (stages m)" by (simp add: st' length_stagesAfter)
  have at_i: "stages m1 ! i = stages m ! i" using i by (simp add: st' nth_stagesAfter)
  have run1: "needsRun e m1 i" and err1: "stageValidate e (fetched e m1 i) = Some err"
    and f1: "fetched e m1 i = fetched e m i"
    using run err failsAt_cong(2,3) [OF at_i] by simp_all
  have i1: "i < length (stages m1)" using i len by simp
  have calls: "map (stageCalls e ?m0) [0..<i] = map (stageCalls e m) [0..<i]"
    by (simp add: eq0)
  define m2 where "m2 = m1\<lparr>stages := (stages m1)[i := (stages m1 ! i)\<lparr>valid := False\<rparr>],
         trace := trace m1 @ [StageGet (name (stages m1 ! i)),
                             StageValidate (name (stages m1 ! i)) (fetched e m1 i)]\<rparr>"
  have res: "internalManage e m = stageFailed err m2"
    by (simp add: internalManage_def passBody_def l loop_fail [OF i1 run1 err1] m2_def)
  have m2: "stages m2 = (stagesAfter e m 0 i)[i := (stages m ! i)\<lparr>valid := False\<rparr>]"
    "filter isStageEvent (trace m2) =
       filter isStageEvent (trace m) @ concat (map (stageCalls e m) [0..<i])
         @ [StageGet (name (stages m ! i)), StageValidate (name (stages m ! i)) (fetched e m i)]"
    "filter isSetTimeout (trace m2) = filter isSetTimeout (trace m)"
    "nextHandle m2 = nextHandle m" "retryTimer m2 = retryTimer m"
    "timers m2 = filter (\<lambda>t. Some (fst t) \<noteq> retryTimer m) (timers m)"
    using sc
    by (simp_all add: m2_def at_i f1 ev to calls passBegin_fields passBegin_filters
        isStageEvent_def isSetTimeout_def sameControl_def st' [symmetric])
  show ?thesis
    by (simp add: res stageFailed_fields stageFailed_filters m2 cong: verror.case_cong)
qed

lemma pass_ok:
  assumes ok: "\<forall>j<length (stages m). \<not> failsAt e m j"
  shows "stages (internalManage e m) = stagesAfter e m 0 (length (stages m))
    \<and> configValid (internalManage e m) = True
    \<and> configMessage (internalManage e m) = []
    \<and> reconfiguring (internalManage e m) = False
    \<and> filter isStageEvent (trace (internalManage e m)) =
        filter isStageEvent (trace m) @ concat (map (stageCalls e m) [0..<length (stages m)])
    \<and> filter isSetTimeout (trace (internalManage e m)) = filter isSetTimeout (trace m)
    \<and> timers (internalManage e m) = filter (\<lambda>t. Some (fst t) \<noteq> retryTimer m) (timers m)
    \<and> retryTimer (internalManage e m) = retryTimer m"
proof -
  let ?m0 = "passBegin m" and ?n = "length (stages m)"
  have s0: "stages ?m0 = stages m" by (simp add: passBegin_fields)
  note eq0 = same_stages [OF s0]
  have "\<forall>j. 0 \<le> j \<and> j < ?n \<longrightarrow> \<not> failsAt e ?m0 j"
    using ok by (simp add: eq0)
  moreover have "?n \<le> length (stages ?m0)" by (simp add: s0)
  ultimately obtain m1 where
    l: "stagesLoop e 0 ?m0 = stagesLoop e ?n m1" and
    st: "stages m1 = stagesAfter e ?m0 0 ?n" and
    ev: "filter isStageEvent (trace m1) =
           filter isStageEvent (trace ?m0) @ concat (map (stageCalls e ?m0) [0..<?n])" and
    to: "filter isSetTimeout (trace m1) = filter isSetTimeout (trace ?m0)" and
    sc: "sameControl ?m0 m1"
    using loop_prefix [of 0 ?n ?m0 e] by blast
  have st': "stages m1 = stagesAfter e m 0 ?n" by (simp add: st eq0)
  have len: "\<not> ?n < length (stages m1)" by (simp add: st' length_stagesAfter)
  have calls: "map (stageCalls e ?m0) [0..<?n] = map (stageCalls e m) [0..<?n]"
    by (simp add: eq0)
  show ?thesis
    using sc
    by (simp add: internalManage_def passBody_def l loop_done [OF len]
        setConfigValid_fields setConfigValid_filters st' ev to calls passBegin_fields
        passBegin_filters sameControl_def)
qed

lemma first_failure:
  "(\<forall>j<n. \<not> failsAt e m j) \<or> (\<exists>i<n. failsAt e m i \<and> (\<forall>j<i. \<not> failsAt e m j))"
proof (cases "\<exists>i. i < n \<and> failsAt e m i")
  case False
  then show ?thesis by blast
next
  case True
  then obtain i where "i < n \<and> failsAt e m i" "\<forall>j<i. \<not> (j < n \<and> failsAt e m j)"
    using exists_least_iff [of "\<lambda>i. i < n \<and> failsAt e m i"] by blast
  then show ?thesis by (intro disjI2 exI [of _ i]) auto
qed

lemma stageCalls_configure:
  "needsRun e m j \<Longrightarrow>
   StageConfigure (name (stages m ! j)) (fetched e m j) \<in> set (stageCalls e m j)"
  by (simp add: stageCalls_def)

lemma stage_event_in_trace:
  assumes "filter isStageEvent tr = xs" "ev \<in> set xs"
  shows "ev \<in> set tr"
  using assms by auto

text \<open>
  Claim C3. Let the loop reach stage \<open>i\<close> (no earlier stage fails), and let the validation
  of stage \<open>i\<close> throw \<open>err\<close>. Then after the pass stage \<open>i\<close> is not valid and its current
  snapshot is the one it had; the stages after \<open>i\<close> are untouched; \<open>configValid\<close> is false
  and the message is \<open>String(err)\<close>; the calls of stage functions the pass made are those
  of the stages before \<open>i\<close>, then \<open>get\<close> and \<open>validate\<close> of stage \<open>i\<close>, and nothing after
  them; and a stage whose current snapshot changed holds a snapshot that validated and
  that \<open>configure\<close> was called with.
\<close>

theorem failing_stage_aborts_pass:
  assumes i: "i < length (stages m)" and before: "\<forall>j<i. \<not> failsAt e m j"
    and run: "needsRun e m i" and err: "stageValidate e (fetched e m i) = Some err"
  shows "valid (stages (internalManage e m) ! i) = False
    \<and> current (stages (internalManage e m) ! i) = current (stages m ! i)
    \<and> drop (Suc i) (stages (internalManage e m)) = drop (Suc i) (stages m)
    \<and> configValid (internalManage e m) = False
    \<and> configMessage (internalManage e m) = errorString err
    \<and> filter isStageEvent (trace (internalManage e m)) =
        filter isStageEvent (trace m) @ concat (map (stageCalls e m) [0..<i])
          @ [StageGet (name (stages m ! i)), StageValidate (name (stages m ! i)) (fetched e m i)]
    \<and> (\<forall>j<length (stages m).
          current (stages (internalManage e m) ! j) = current (stages m ! j)
          \<or> (stageValidate e (current (stages (internalManage e m) ! j)) = None
              \<and> StageConfigure (name (stages m ! j)) (current (stages (internalManage e m) ! j))
                   \<in> set (trace (internalManage e m))))"
proof -
  let ?m' = "internalManage e m"
  note pf = pass_fail [OF i before run err]
  from pf have st: "stages ?m' = (stagesAfter e m 0 i)[i := (stages m ! i)\<lparr>valid := False\<rparr>]"
    and ev: "filter isStageEvent (trace ?m') =
        filter isStageEvent (trace m) @ concat (map (stageCalls e m) [0..<i])
          @ [StageGet (name (stages m ! i)), StageValidate (name (stages m ! i)) (fetched e m i)]"
    by simp_all
  have at_i: "stages ?m' ! i = (stages m ! i)\<lparr>valid := False\<rparr>"
    using i by (simp add: st length_stagesAfter)
  have above: "drop (Suc i) (stages ?m') = drop (Suc i) (stages m)"
  proof (rule nth_equalityI)
    show "length (drop (Suc i) (stages ?m')) = length (drop (Suc i) (stages m))"
      by (simp add: st length_stagesAfter)
  next
    fix j assume "j < length (drop (Suc i) (stages ?m'))"
    then have "Suc i + j < length (stages m)" by (simp add: st length_stagesAfter)
    then show "drop (Suc i) (stages ?m') ! j = drop (Suc i) (stages m) ! j"
      by (simp add: st length_stagesAfter nth_stagesAfter)
  qed
  have cur: "current (stages ?m' ! j) = current (stages m ! j)
      \<or> (stageValidate e (current (stages ?m' ! j)) = None
          \<and> StageConfigure (name (stages m ! j)) (current (stages ?m' ! j)) \<in> set (trace ?m'))"
    if j: "j < length (stages m)" for j
  proof (cases "j < i \<and> needsRun e m j")
    case False
    then show ?thesis
      using j i by (cases "j = i") (auto simp: st length_stagesAfter nth_stagesAfter)
  next
    case True
    then have sj: "stages ?m' ! j = appliedStage e m j"
      using j by (simp add: st nth_stagesAfter)
    from True before have v: "stageValidate e (fetched e m j) = None"
      by (auto simp: failsAt_def)
    have "StageConfigure (name (stages m ! j)) (fetched e m j)
            \<in> set (concat (map (stageCalls e m) [0..<i]))"
      using True stageCalls_configure [of e m j] by auto
    then have "StageConfigure (name (stages m ! j)) (fetched e m j) \<in> set (trace ?m')"
      using stage_event_in_trace [OF ev] by simp
    then show ?thesis
      using v by (simp add: sj appliedStage_def)
  qed
  show ?thesis
    using pf at_i above cur by simp
qed

theorem failing_stage_aborts_pass_witness:
  "valid (stages (internalManage (goodEnv noWindowConfig) (newManager exampleConfig)) ! Suc 0) = False
   \<and> drop 2 (stages (internalManage (goodEnv noWindowConfig) (newManager exampleConfig)))
       = drop 2 (newStages exampleConfig)
   \<and> configValid (internalManage (goodEnv noWindowConfig) (newManager exampleConfig)) = False
   \<and> configMessage (internalManage (goodEnv noWindowConfig) (newManager exampleConfig))
       = ''Error: Must select a window in the scene settings, if none appear, make sure WoW is running.''
   \<and> filter isStageEvent
        (trace (internalManage (goodEnv noWindowConfig) (newManager exampleConfig)))
       = [StageGet obsBase,
          StageValidate obsBase (BaseCfg (getObsBaseConfig exampleConfig)),
          StageConfigure obsBase (BaseCfg (getObsBaseConfig exampleConfig)),
          StageGet obsVideo,
          StageValidate obsVideo (VideoCfg (getObsVideoConfig noWindowConfig))]"
proof -
  let ?e = "goodEnv noWindowConfig" and ?m = "newManager exampleConfig"
  let ?err = "Error (''Must select a window in the scene settings, ''
                     @ ''if none appear, make sure WoW is running.'')"
  have st: "stages ?m = newStages exampleConfig" and tr: "trace ?m = [NewRecorder]"
    by (simp_all add: newManager_def)
  have h1: "Suc 0 < length (stages ?m)"
    by (simp add: st newStages_def)
  have f0: "fetched ?e ?m 0 = BaseCfg (getObsBaseConfig exampleConfig)"
    by (simp add: fetched_def st newStages_def goodEnv_def noWindowConfig_def)
  have "stageValidate ?e (BaseCfg (getObsBaseConfig exampleConfig)) = None"
    by (simp add: goodEnv_def exampleConfig_def validateBaseCfg_def validateBaseConfig_def
        validateCloudBaseConfig_def)
  then have h2: "\<forall>j<Suc 0. \<not> failsAt ?e ?m j"
    unfolding failsAt_def by (simp add: f0)
  have h3: "needsRun ?e ?m (Suc 0)"
    by (simp add: needsRun_def st newStages_def)
  have f1: "fetched ?e ?m (Suc 0) = VideoCfg (getObsVideoConfig noWindowConfig)"
    and n1: "name (newStages exampleConfig ! Suc 0) = obsVideo"
    by (simp_all add: fetched_def st newStages_def goodEnv_def)
  have h4: "stageValidate ?e (fetched ?e ?m (Suc 0)) = Some ?err"
    unfolding f1 by (simp add: noWindowConfig_def validateVideoConfig_def)
  have calls: "concat (map (stageCalls ?e ?m) [0..<Suc 0])
      = [StageGet obsBase, StageValidate obsBase (BaseCfg (getObsBaseConfig exampleConfig)),
         StageConfigure obsBase (BaseCfg (getObsBaseConfig exampleConfig))]"
    by (simp add: stageCalls_def needsRun_def f0) (simp add: st newStages_def)
  from failing_stage_aborts_pass [OF h1 h2 h3 h4]
  show ?thesis
    by (simp add: calls f1 n1 tr st errorString_def isStageEvent_def numeral_2_eq_2 del: upt_Suc)
qed

section \<open>Passes that skip or replay the stages\<close>

lemma stage_work_of_stage_events:
  "filter isStageWork (filter isStageEvent tr) = filter isStageWork tr"
proof -
  have "isStageWork ev \<Longrightarrow> isStageEvent ev" for ev
    by (cases ev) (simp_all add: isStageWork_def isStageEvent_def)
  then show ?thesis
    by (induction tr) auto
qed

lemma stage_work_eq:
  assumes "filter isStageEvent tr' = filter isStageEvent tr @ xs"
  shows "filter isStageWork tr' = filter isStageWork tr @ filter isStageWork xs"
proof -
  have "filter isStageWork tr' = filter isStageWork (filter isStageEvent tr')"
    by (simp only: stage_work_of_stage_events)
  also have "\<dots> = filter isStageWork (filter isStageEvent tr @ xs)"
    by (simp only: assms)
  also have "\<dots> = filter isStageWork (filter isStageEvent tr) @ filter isStageWork xs"
    by (simp only: filter_append)
  also have "\<dots> = filter isStageWork tr @ filter isStageWork xs"
    by (simp only: stage_work_of_stage_events)
  finally show ?thesis .
qed

lemma stagesAfter_none:
  assumes "\<forall>j<length (stages m). \<not> needsRun e m j"
  shows "stagesAfter e m 0 (length (stages m)) = stages m"
  using assms by (intro nth_equalityI) (simp_all add: length_stagesAfter nth_stagesAfter)

lemma pass_skip:
  assumes skip: "\<forall>j<length (stages m). \<not> needsRun e m j"
  shows "stages (internalManage e m) = stages m
    \<and> filter isStageWork (trace (internalManage e m)) = filter isStageWork (trace m)
    \<and> filter isStageEvent (trace (internalManage e m)) =
        filter isStageEvent (trace m)
          @ map (\<lambda>j. StageGet (name (stages m ! j))) [0..<length (stages m)]
    \<and> configValid (internalManage e m) = True
    \<and> configMessage (internalManage e m) = []"
proof -
  have ok: "\<forall>j<length (stages m). \<not> failsAt e m j"
    using skip by (simp add: failsAt_def)
  have calls: "map (stageCalls e m) [0..<length (stages m)] =
      map (\<lambda>j. [StageGet (name (stages m ! j))]) [0..<length (stages m)]"
    using skip by (simp add: stageCalls_def)
  have flat: "concat (map (\<lambda>j. [f j]) js) = map f js" for f :: "nat \<Rightarrow> event" and js
    by (induction js) simp_all
  note p = pass_ok [OF ok]
  from p have ev: "filter isStageEvent (trace (internalManage e m)) =
      filter isStageEvent (trace m)
        @ map (\<lambda>j. StageGet (name (stages m ! j))) [0..<length (stages m)]"
    by (simp add: calls flat)
  have "filter isStageWork (map (\<lambda>j. StageGet (name (stages m ! j))) js) = []" for js
    by (induction js) (simp_all add: isStageWork_def)
  then have "filter isStageWork (trace (internalManage e m)) = filter isStageWork (trace m)"
    using stage_work_eq [OF ev] by simp
  then show ?thesis
    using p ev by (simp add: stagesAfter_none [OF skip])
qed

lemma settled_after_pass:
  assumes ok: "\<forall>j<length (stages m). \<not> failsAt e m j"
  shows "\<forall>j<length (stages (internalManage e m)). \<not> needsRun e (internalManage e m) j"
proof (intro allI impI)
  fix j assume "j < length (stages (internalManage e m))"
  then have j: "j < length (stages m)"
    using pass_ok [OF ok] by (simp add: length_stagesAfter)
  have st: "stages (internalManage e m) ! j =
      (if needsRun e m j then appliedStage e m j else stages m ! j)"
    using pass_ok [OF ok] j by (simp add: nth_stagesAfter)
  show "\<not> needsRun e (internalManage e m) j"
    by (cases "needsRun e m j")
      (simp_all add: needsRun_def fetched_def st appliedStage_def)
qed

text \<open>
  Claim C8. If every stage is valid and fetches a snapshot equal to its current one, the
  pass calls no \<open>validate\<close> and no \<open>configure\<close> (it only calls \<open>get\<close>, once per stage, in
  order), leaves the stage table as it is and ends with \<open>configValid\<close> true and an empty
  message. In particular a pass that follows a pass in which no stage failed, with the
  same snapshots, is such a pass.
\<close>

theorem unchanged_pass_is_noop:
  "((\<forall>j<length (stages m). valid (stages m ! j) \<and> fetched e m j = current (stages m ! j))
     \<longrightarrow> stages (internalManage e m) = stages m
        \<and> filter isStageWork (trace (internalManage e m)) = filter isStageWork (trace m)
        \<and> filter isStageEvent (trace (internalManage e m)) =
            filter isStageEvent (trace m)
              @ map (\<lambda>j. StageGet (name (stages m ! j))) [0..<length (stages m)]
        \<and> configValid (internalManage e m) = True
        \<and> configMessage (internalManage e m) = [])
   \<and> ((\<forall>j<length (stages m). \<not> failsAt e m j)
     \<longrightarrow> stages (internalManage e (internalManage e m)) = stages (internalManage e m)
        \<and> filter isStageWork (trace (internalManage e (internalManage e m)))
            = filter isStageWork (trace (internalManage e m))
        \<and> configValid (internalManage e (internalManage e m)) = True
        \<and> configMessage (internalManage e (internalManage e m)) = [])"
proof (intro conjI impI)
  assume "\<forall>j<length (stages m). valid (stages m ! j) \<and> fetched e m j = current (stages m ! j)"
  then have skip: "\<forall>j<length (stages m). \<not> needsRun e m j"
    by (simp add: needsRun_def)
  note p = pass_skip [OF skip]
  from p show "stages (internalManage e m) = stages m" by simp
  from p show "filter isStageWork (trace (internalManage e m)) = filter isStageWork (trace m)"
    by simp
  from p show "filter isStageEvent (trace (internalManage e m)) =
      filter isStageEvent (trace m)
        @ map (\<lambda>j. StageGet (name (stages m ! j))) [0..<length (stages m)]"
    by simp
  from p show "configValid (internalManage e m) = True" by simp
  from p show "configMessage (internalManage e m) = []" by simp
next
  assume ok: "\<forall>j<length (stages m). \<not> failsAt e m j"
  note p = pass_skip [OF settled_after_pass [OF ok]]
  from p show "stages (internalManage e (internalManage e m)) = stages (internalManage e m)"
    by simp
  from p show "filter isStageWork (trace (internalManage e (internalManage e m)))
      = filter isStageWork (trace (internalManage e m))"
    by simp
  from p show "configValid (internalManage e (internalManage e m)) = True" by simp
  from p show "configMessage (internalManage e (internalManage e m)) = []" by simp
qed

theorem unchanged_pass_is_noop_witness:
  "stages (internalManage (goodEnv exampleConfig) settledManager) = stages settledManager
   \<and> filter isStageWork (trace (internalManage (goodEnv exampleConfig) settledManager)) = []
   \<and> filter isStageEvent (trace (internalManage (goodEnv exampleConfig) settledManager))
       = [StageGet obsBase, StageGet obsVideo, StageGet obsAudio, StageGet flavour,
          StageGet overlay]
   \<and> configValid (internalManage (goodEnv exampleConfig) settledManager) = True
   \<and> configMessage (internalManage (goodEnv exampleConfig) settledManager) = []"
proof -
  let ?e = "goodEnv exampleConfig" and ?m = settledManager
  have st: "stages ?m = map (\<lambda>st. st\<lparr>valid := True\<rparr>) (newStages exampleConfig)"
    and tr: "trace ?m = [NewRecorder]"
    by (simp_all add: settledManager_def newManager_def)
  have len: "length (stages ?m) = 5"
    by (simp add: st newStages_def)
  have all: "(\<forall>j<5. P j) = (P 0 \<and> P 1 \<and> P 2 \<and> P 3 \<and> P (4::nat))" for P
    by (auto simp: less_Suc_eq numeral_eq_Suc)
  have h: "\<forall>j<length (stages ?m). valid (stages ?m ! j) \<and> fetched ?e ?m j = current (stages ?m ! j)"
    unfolding len all
    by (simp add: st newStages_def fetched_def goodEnv_def)
  have names: "map (\<lambda>j. StageGet (name (stages ?m ! j))) [0..<length (stages ?m)]
      = [StageGet obsBase, StageGet obsVideo, StageGet obsAudio, StageGet flavour,
         StageGet overlay]"
    unfolding len by (simp add: st newStages_def upt_rec)
  from unchanged_pass_is_noop [of ?m ?e] h
  show ?thesis
    by (simp add: names tr isStageWork_def isStageEvent_def)
qed

section \<open>Retries\<close>

lemma cloud_check_outcome:
  assumes "cloudAccountName c \<noteq> []" "cloudAccountPassword c \<noteq> []" "cloudGuildName c \<noteq> []"
  shows "validateCloudBaseConfig e c =
    (case checkAuthRace e (cloudAccountName c) (cloudAccountPassword c) (cloudGuildName c) of
       TimedOut \<Rightarrow>
         Some (RetryableConfigError ''Failed to authenticate with the cloud store.'' 10000)
     | Rejected x \<Rightarrow>
         Some (case x of AuthError msg \<Rightarrow> AuthError msg
               | _ \<Rightarrow> RetryableConfigError ''Failed to authenticate with the cloud store.''
                       10000)
     | Resolved r w \<Rightarrow>
         (if \<not> r then Some (Error ''User is not authorized to access the guild.'')
          else if \<not> w \<and> cloudUpload c
            then Some (Error ''User is not authorized to upload to the guild.'')
          else None))"
  using assms
  by (simp add: validateCloudBaseConfig_def split: race_outcome.splits verror.splits)

text \<open>
  Claim C5. Let the validation of stage \<open>i\<close> throw \<open>err\<close> in a pass. If \<open>err\<close> is a
  \<open>RetryableConfigError\<close> with delay \<open>t\<close>, the pass calls \<open>setTimeout\<close> exactly once, with
  delay \<open>t\<close>, the new timer is pending after the pass (next to nothing but what was
  pending before and was not the old retry timer), and when it fires it calls \<open>manage\<close>.
  For any other error, an \<open>AuthError\<close> among them, the pass calls \<open>setTimeout\<close> not at all
  and adds no timer. In both cases \<open>configValid\<close> is false after the pass. The cloud check
  throws a \<open>RetryableConfigError\<close> with a delay of 10000 ms when the race against the
  promise bomb times out or the check rejects with anything but an \<open>AuthError\<close>, and
  rethrows an \<open>AuthError\<close>.
\<close>

theorem retry_only_for_retryable:
  assumes i: "i < length (stages m)" and before: "\<forall>j<i. \<not> failsAt e m j"
    and run: "needsRun e m i" and err: "stageValidate e (fetched e m i) = Some err"
  shows "filter isSetTimeout (trace (internalManage e m)) =
      filter isSetTimeout (trace m)
        @ (case err of RetryableConfigError msg t \<Rightarrow> [SetTimeout (nextHandle m) t] | _ \<Rightarrow> [])
    \<and> timers (internalManage e m) =
      filter (\<lambda>t. Some (fst t) \<noteq> retryTimer m) (timers m)
        @ (case err of RetryableConfigError msg t \<Rightarrow> [(nextHandle m, t)] | _ \<Rightarrow> [])
    \<and> configValid (internalManage e m) = False
    \<and> (case err of
          RetryableConfigError msg t \<Rightarrow>
            retryTimerFires (nextHandle m) \<lparr>mgr = internalManage e m, tasks = ts\<rparr> =
              manage \<lparr>mgr = (internalManage e m)
                        \<lparr>timers := filter (\<lambda>t. fst t \<noteq> nextHandle m)
                                     (timers (internalManage e m))\<rparr>,
                      tasks = ts\<rparr>
        | _ \<Rightarrow> True)
    \<and> (if cloudAccountName c \<noteq> [] \<and> cloudAccountPassword c \<noteq> [] \<and> cloudGuildName c \<noteq> []
        then validateCloudBaseConfig e' c =
          (case checkAuthRace e' (cloudAccountName c) (cloudAccountPassword c)
                  (cloudGuildName c) of
             TimedOut \<Rightarrow>
               Some (RetryableConfigError ''Failed to authenticate with the cloud store.'' 10000)
           | Rejected x \<Rightarrow>
               Some (case x of AuthError msg \<Rightarrow> AuthError msg
                     | _ \<Rightarrow> RetryableConfigError
                             ''Failed to authenticate with the cloud store.'' 10000)
           | Resolved r w \<Rightarrow>
               (if \<not> r then Some (Error ''User is not authorized to access the guild.'')
                else if \<not> w \<and> cloudUpload c
                  then Some (Error ''User is not authorized to upload to the guild.'')
                else None))
        else True)"
proof -
  note pf = pass_fail [OF i before run err]
  have fire: "retryTimerFires (nextHandle m) \<lparr>mgr = internalManage e m, tasks = ts\<rparr> =
      manage \<lparr>mgr = (internalManage e m)
                \<lparr>timers := filter (\<lambda>t. fst t \<noteq> nextHandle m) (timers (internalManage e m))\<rparr>,
              tasks = ts\<rparr>"
    if "err = RetryableConfigError msg t" for msg t
  proof -
    have "nextHandle m \<in> fst ` set (timers (internalManage e m))"
      using pf that by simp
    then show ?thesis
      by (simp add: retryTimerFires_def)
  qed
  have cloud: "validateCloudBaseConfig e' c =
          (case checkAuthRace e' (cloudAccountName c) (cloudAccountPassword c)
                  (cloudGuildName c) of
             TimedOut \<Rightarrow>
               Some (RetryableConfigError ''Failed to authenticate with the cloud store.'' 10000)
           | Rejected x \<Rightarrow>
               Some (case x of AuthError msg \<Rightarrow> AuthError msg
                     | _ \<Rightarrow> RetryableConfigError
                             ''Failed to authenticate with the cloud store.'' 10000)
           | Resolved r w \<Rightarrow>
               (if \<not> r then Some (Error ''User is not authorized to access the guild.'')
                else if \<not> w \<and> cloudUpload c
                  then Some (Error ''User is not authorized to upload to the guild.'')
                else None))"
    if "cloudAccountName c \<noteq> []" "cloudAccountPassword c \<noteq> []" "cloudGuildName c \<noteq> []"
    using that by (rule cloud_check_outcome)
  have last: "(case err of
          RetryableConfigError msg t \<Rightarrow>
            retryTimerFires (nextHandle m) \<lparr>mgr = internalManage e m, tasks = ts\<rparr> =
              manage \<lparr>mgr = (internalManage e m)
                        \<lparr>timers := filter (\<lambda>t. fst t \<noteq> nextHandle m)
                                     (timers (internalManage e m))\<rparr>,
                      tasks = ts\<rparr>
        | _ \<Rightarrow> True)"
    using fire by (cases err) simp_all
  show ?thesis
    using pf last cloud by simp
qed

theorem retry_only_for_retryable_witness:
  "timers (internalManage (raceEnv exampleConfig TimedOut) (newManager exampleConfig))
     = [(0, 10000)]
   \<and> filter isSetTimeout
        (trace (internalManage (raceEnv exampleConfig TimedOut) (newManager exampleConfig)))
     = [SetTimeout 0 10000]
   \<and> timers (internalManage (raceEnv exampleConfig (Rejected (AuthError ''403'')))
        (newManager exampleConfig)) = []
   \<and> filter isSetTimeout
        (trace (internalManage (raceEnv exampleConfig (Rejected (AuthError ''403'')))
          (newManager exampleConfig))) = []"
proof -
  let ?m = "newManager exampleConfig"
  have st: "stages ?m = newStages exampleConfig" and tr: "trace ?m = [NewRecorder]"
    and tm: "timers ?m = []" and nh: "nextHandle ?m = 0"
    by (simp_all add: newManager_def)
  have h1: "0 < length (stages ?m)"
    by (simp add: st newStages_def)
  have h2: "\<forall>j<0. \<not> failsAt e ?m j" for e
    by simp
  have h3: "needsRun e ?m 0" for e
    by (simp add: needsRun_def st newStages_def)
  have f0: "fetched (raceEnv exampleConfig r) ?m 0 = BaseCfg (getObsBaseConfig exampleConfig)"
    for r
    by (simp add: fetched_def st newStages_def raceEnv_def goodEnv_def)
  have v: "stageValidate (raceEnv exampleConfig r) (BaseCfg (getObsBaseConfig exampleConfig))
      = validateCloudBaseConfig (raceEnv exampleConfig r) (getObsBaseConfig exampleConfig)"
    for r
    by (simp add: raceEnv_def goodEnv_def exampleConfig_def validateBaseCfg_def
        validateBaseConfig_def)
  have h4a: "stageValidate (raceEnv exampleConfig TimedOut)
        (fetched (raceEnv exampleConfig TimedOut) ?m 0)
      = Some (RetryableConfigError ''Failed to authenticate with the cloud store.'' 10000)"
    unfolding f0 v
    by (simp add: validateCloudBaseConfig_def raceEnv_def exampleConfig_def)
  have h4b: "stageValidate (raceEnv exampleConfig (Rejected (AuthError ''403'')))
        (fetched (raceEnv exampleConfig (Rejected (AuthError ''403''))) ?m 0)
      = Some (AuthError ''403'')"
    unfolding f0 v
    by (simp add: validateCloudBaseConfig_def raceEnv_def exampleConfig_def)
  from retry_only_for_retryable [OF h1 h2 h3 h4a] retry_only_for_retryable [OF h1 h2 h3 h4b]
  show ?thesis
    by (simp add: tr tm nh isSetTimeout_def)
qed

section \<open>The audio stage\<close>

lemma pass_audio_stage:
  assumes a: "a < length (stages m)" and nm: "name (stages m ! a) = obsAudio"
    and before: "\<forall>j<a. \<not> failsAt e m j" and run: "needsRun e m a"
  shows "stages (internalManage e m) ! a =
    \<lparr>name = obsAudio, valid = True, current = AudioCfg (getObsAudioConfig (cfgAt e a))\<rparr>"
proof -
  let ?m0 = "passBegin m"
  have s0: "stages ?m0 = stages m" by (simp add: passBegin_fields)
  note eq0 = same_stages [OF s0]
  have fa: "fetched e m a = AudioCfg (getObsAudioConfig (cfgAt e a))"
    by (simp add: fetched_def nm)
  then have "\<not> failsAt e m a"
    by (simp add: failsAt_def)
  with before have "\<forall>j. 0 \<le> j \<and> j < Suc a \<longrightarrow> \<not> failsAt e ?m0 j"
    by (auto simp: eq0 less_Suc_eq)
  moreover have "Suc a \<le> length (stages ?m0)" using a by (simp add: s0)
  ultimately obtain m1 where
    l: "stagesLoop e 0 ?m0 = stagesLoop e (Suc a) m1" and
    st: "stages m1 = stagesAfter e ?m0 0 (Suc a)"
    using loop_prefix [of 0 "Suc a" ?m0 e] by blast
  have "stages m1 ! a = appliedStage e m a"
    using a run by (simp add: st eq0 nth_stagesAfter)
  moreover have "take (Suc a) (stages (stagesLoop e (Suc a) m1)) = take (Suc a) (stages m1)"
    using loop_control [of e "Suc a" m1] by simp
  then have "take (Suc a) (stages (stagesLoop e (Suc a) m1)) ! a = take (Suc a) (stages m1) ! a"
    by simp
  then have "stages (stagesLoop e (Suc a) m1) ! a = stages m1 ! a"
    by simp
  ultimately show ?thesis
    by (simp add: internalManage_def passBody_def l appliedStage_def nm fa)
qed

lemma pass_audio_events:
  "\<not> isWowRunning m \<Longrightarrow>
   filter isAudioSources (trace (internalManage e m)) = filter isAudioSources (trace m)"
  by (simp add: internalManage_def passBody_def loop_audio passBegin_fields passBegin_filters)

text \<open>
  Claim C10. \<open>configureObsAudio\<close> calls \<open>recorder.configureAudioSources\<close> when the poller
  reports the game running, and does nothing at all otherwise. Still, a pass in which the
  audio stage is reached and has to run, with the game not running, calls
  \<open>configureAudioSources\<close> not once and leaves the audio stage valid with the fetched
  snapshot as its current one. \<open>onWowStarted\<close> then calls \<open>configureAudioSources\<close> with the
  audio settings the \<open>ConfigService\<close> holds at that moment.
\<close>

theorem audio_sources_wait_for_game:
  assumes a: "a < length (stages m)" and nm: "name (stages m ! a) = obsAudio"
    and before: "\<forall>j<a. \<not> failsAt e m j" and run: "needsRun e m a"
    and off: "\<not> isWowRunning m"
  shows "configureObsAudio c m = m
    \<and> configureObsAudio c (m\<lparr>isWowRunning := True\<rparr>)
        = (m\<lparr>isWowRunning := True\<rparr>)\<lparr>trace := trace m @ [ConfigureAudioSources c]\<rparr>
    \<and> filter isAudioSources (trace (internalManage e m)) = filter isAudioSources (trace m)
    \<and> stages (internalManage e m) ! a =
        \<lparr>name = obsAudio, valid = True, current = AudioCfg (getObsAudioConfig (cfgAt e a))\<rparr>
    \<and> trace (onWowStarted cfg (internalManage e m)) =
        trace (internalManage e m)
          @ [ConfigureAudioSources (getObsAudioConfig cfg), RecorderStart]"
  using off pass_audio_stage [OF a nm before run] pass_audio_events [OF off]
  by (simp add: configureObsAudio_def onWowStarted_def emit_def)

theorem audio_sources_wait_for_game_witness:
  "filter isAudioSources
     (trace (internalManage (goodEnv exampleConfig) (newManager exampleConfig))) = []
   \<and> stages (internalManage (goodEnv exampleConfig) (newManager exampleConfig)) ! 2 =
       \<lparr>name = obsAudio, valid = True, current = AudioCfg \<lparr>audioRest = ''speakers''\<rparr>\<rparr>
   \<and> filter isAudioSources
       (trace (onWowStarted exampleConfig
          (internalManage (goodEnv exampleConfig) (newManager exampleConfig))))
       = [ConfigureAudioSources \<lparr>audioRest = ''speakers''\<rparr>]"
proof -
  let ?e = "goodEnv exampleConfig" and ?m = "newManager exampleConfig"
  have st: "stages ?m = newStages exampleConfig" and tr: "trace ?m = [NewRecorder]"
    and off: "\<not> isWowRunning ?m"
    by (simp_all add: newManager_def)
  have a: "2 < length (stages ?m)" and nm: "name (stages ?m ! 2) = obsAudio"
    and run: "needsRun ?e ?m 2"
    by (simp_all add: st newStages_def needsRun_def)
  have two: "(\<forall>j<2. P j) = (P 0 \<and> P (Suc 0))" for P
    by (auto simp: less_Suc_eq numeral_eq_Suc)
  have f0: "fetched ?e ?m 0 = BaseCfg (getObsBaseConfig exampleConfig)"
    and f1: "fetched ?e ?m (Suc 0) = VideoCfg (getObsVideoConfig exampleConfig)"
    by (simp_all add: fetched_def st newStages_def goodEnv_def)
  have v0: "stageValidate ?e (BaseCfg (getObsBaseConfig exampleConfig)) = None"
    by (simp add: goodEnv_def exampleConfig_def validateBaseCfg_def validateBaseConfig_def
        validateCloudBaseConfig_def)
  have v1: "stageValidate ?e (VideoCfg (getObsVideoConfig exampleConfig)) = None"
    by (simp add: exampleConfig_def validateVideoConfig_def)
  have before: "\<forall>j<2. \<not> failsAt ?e ?m j"
    unfolding two failsAt_def f0 f1 v0 v1 by simp
  have cfg: "getObsAudioConfig (cfgAt ?e 2) = \<lparr>audioRest = ''speakers''\<rparr>"
    "getObsAudioConfig exampleConfig = \<lparr>audioRest = ''speakers''\<rparr>"
    by (simp_all add: goodEnv_def exampleConfig_def)
  from audio_sources_wait_for_game [OF a nm before run off, of _ exampleConfig]
  show ?thesis
    by (simp add: tr cfg isAudioSources_def)
qed


section \<open>The steps of a pass\<close>

lemma fetchStage_control:
  assumes "fetchStage g i m = (c, m1)"
  shows "active m1 = active m" "queued m1 = queued m" "cfgService m1 = cfgService m"
    "count_list (trace m1) (ConsoleInfo t) = count_list (trace m) (ConsoleInfo t)"
    "length (stages m1) = length (stages m)"
  using assms
  by (auto simp: fetchStage_def Let_def setStage_def emit_def split: if_splits)

lemma callValidate_control:
  "active (callValidate i c m) = active m" "queued (callValidate i c m) = queued m"
  "cfgService (callValidate i c m) = cfgService m"
  "count_list (trace (callValidate i c m)) (ConsoleInfo t) = count_list (trace m) (ConsoleInfo t)"
  "stages (callValidate i c m) = stages m"
  by (simp_all add: callValidate_def emit_def)

lemma stageConfigure_cfgService: "cfgService (stageConfigure c x) = cfgService x"
  by (cases c; simp add: configureObsBase_def configureObsVideo_def configureObsAudio_def
        configureFlavour_def configureObsOverlay_def emit_def Let_def)

lemma refreshStatus_cfgService: "cfgService (refreshStatus m) = cfgService m"
  by (simp add: refreshStatus_def refreshRecStatus_def refreshMicStatus_def emit_def Let_def)

lemma setConfigValid_cfgService: "cfgService (setConfigValid m) = cfgService m"
  by (simp add: setConfigValid_def refreshStatus_cfgService)

lemma stageFailed_cfgService: "cfgService (stageFailed err m) = cfgService m"
  by (cases err; simp add: stageFailed_def setConfigInvalid_def scheduleRetry_def
        refreshStatus_cfgService emit_def Let_def)

lemma passBegin_cfgService: "cfgService (passBegin m) = cfgService m"
  by (cases "retryTimer m"; simp add: passBegin_def refreshStatus_cfgService
        refreshStatus_fields clearTimeout_def emit_def Let_def)

lemmas cfgService_kept = setConfigValid_cfgService stageFailed_cfgService passBegin_cfgService
  stageConfigure_cfgService refreshStatus_cfgService

lemma callConfigure_control:
  "active (callConfigure i c m) = active m" "queued (callConfigure i c m) = queued m"
  "cfgService (callConfigure i c m) = cfgService m"
  "count_list (trace (callConfigure i c m)) (ConsoleInfo t) = count_list (trace m) (ConsoleInfo t)"
  "stages (callConfigure i c m) = stages m"
  by (simp_all add: callConfigure_def emit_def stageConfigure_fields stageConfigure_trace
      stageConfigure_cfgService)

lemma markValid_control:
  "active (markValid i c m) = active m" "queued (markValid i c m) = queued m"
  "cfgService (markValid i c m) = cfgService m"
  "trace (markValid i c m) = trace m"
  "length (stages (markValid i c m)) = length (stages m)"
  by (simp_all add: markValid_def setStage_def)

lemma advance_control:
  "advance g i m = (m1, r) \<Longrightarrow>
    active m1 = active m \<and> queued m1 = queued m \<and> cfgService m1 = cfgService m
    \<and> passesStarted m1 = passesStarted m"
proof (induction g i m arbitrary: m1 r rule: advance.induct)
  case (1 g i m)
  show ?case
  proof (cases "i < length (stages m)")
    case False
    then show ?thesis
      using "1.prems"
      by (auto simp: advance.simps [of g i m] setConfigValid_fields setConfigValid_filters
          passesStarted_def cfgService_kept)
  next
    case True
    obtain c m' where f: "fetchStage (g i) i m = (c, m')"
      by (cases "fetchStage (g i) i m")
    note fc = fetchStage_control [OF f]
    show ?thesis
    proof (cases "valid (stages m' ! i)")
      case False
      then show ?thesis
        using "1.prems" True f fc
        by (auto simp: advance.simps [of g i m] callValidate_control passesStarted_def)
    next
      case v: True
      then have "advance g (Suc i) m' = (m1, r)"
        using "1.prems" True f by (simp add: advance.simps [of g i m])
      from "1.IH" [OF True f [symmetric] _ this] v
      show ?thesis
        using fc by (simp add: passesStarted_def)
    qed
  qed
qed

lemma passesStarted_upd:
  "passesStarted (m\<lparr>active := a\<rparr>) = passesStarted m"
  "passesStarted (m\<lparr>queued := a\<rparr>) = passesStarted m"
  "passesStarted (m\<lparr>cfgService := c\<rparr>) = passesStarted m"
  "passesStarted (m\<lparr>timers := ts\<rparr>) = passesStarted m"
  "passesStarted (emit (ConsoleInfo ''[Manager] Queued a manage call'') m) = passesStarted m"
  "passesStarted (emit (ConsoleInfo ''[Manager] Execute a queued manage call'') m)
     = passesStarted m"
  by (simp_all add: passesStarted_def emit_def)

lemma resumePass_all:
  assumes "resumePass e g at m = (m1, r)"
  shows "active m1 = active m \<and> queued m1 = queued m \<and> cfgService m1 = cfgService m
    \<and> passesStarted m1 = passesStarted m"
proof (cases at)
  case (AwaitValidate i c)
  with assms show ?thesis
    by (auto simp: resumePass_def stageFailed_fields stageFailed_filters cfgService_kept
        callConfigure_control passesStarted_def split: option.splits)
next
  case (AwaitConfigure i c)
  with assms have a: "advance g (Suc i) (markValid i c m) = (m1, r)"
    by (simp add: resumePass_def)
  from advance_control [OF a] show ?thesis
    by (simp add: markValid_control passesStarted_def)
qed

lemma resumePass_control:
  assumes "resumePass e g at m = (m1, r)"
  shows "active m1 = active m" "queued m1 = queued m" "cfgService m1 = cfgService m"
    "passesStarted m1 = passesStarted m"
  using resumePass_all [OF assms] by simp_all

lemma restOfPass_control:
  "active (restOfPass e at m) = active m" "queued (restOfPass e at m) = queued m"
  "passesStarted (restOfPass e at m) = passesStarted m"
  using loop_control
  by (cases at; auto simp: restOfPass_def stageFailed_fields stageFailed_filters
        callConfigure_control markValid_control passesStarted_def split: option.splits)+

lemma startPass_control:
  assumes "startPass m = (m1, r)"
  shows "active m1 = active m" "queued m1 = queued m" "cfgService m1 = cfgService m"
    "passesStarted m1 = Suc (passesStarted m)"
  using advance_control [OF assms [unfolded startPass_def]]
  by (simp_all add: passBegin_fields passBegin_filters cfgService_kept)

lemma settle_outcome:
  assumes "settle p (m1, r) = (m', r')"
  shows "case r' of
      None \<Rightarrow> \<not> active m'
        \<and> passesStarted m' = passesStarted m1 + (if p = FirstPass \<and> queued m1 then 1 else 0)
    | Some t \<Rightarrow> active m' = active m1
        \<and> ((fst t = p \<and> passesStarted m' = passesStarted m1 \<and> queued m' = queued m1)
          \<or> (p = FirstPass \<and> fst t = SecondPass \<and> queued m1 \<and> \<not> queued m'
              \<and> passesStarted m' = Suc (passesStarted m1)))"
proof (cases r)
  case (Some at)
  with assms show ?thesis by (auto simp: settle_def)
next
  case None
  then have rm: "resumeManage p m1 = (m', r')"
    using assms by (simp add: settle_def)
  show ?thesis
  proof (cases "p = FirstPass \<and> queued m1")
    case False
    then show ?thesis
      using rm by (cases p) (auto simp: resumeManage_def passesStarted_upd)
  next
    case True
    let ?m = "(emit (ConsoleInfo ''[Manager] Execute a queued manage call'') m1)
                \<lparr>queued := False\<rparr>"
    obtain m2 r2 where sp: "startPass ?m = (m2, r2)"
      by (cases "startPass ?m")
    note c = startPass_control [OF sp]
    have ps: "passesStarted ?m = passesStarted m1" "active ?m = active m1"
      by (simp_all add: passesStarted_def emit_def)
    show ?thesis
      using rm True sp c ps
      by (cases r2) (auto simp: resumeManage_def passesStarted_upd)
  qed
qed

text \<open>
  The steps compose to the pass as a whole: run without interruption from a suspension
  point, and with the settings \<open>cfgAt\<close> of the environment, the loop is \<open>stagesLoop\<close>, and a
  pass from its start is \<open>internalManage\<close>.
\<close>

lemma runStage_steps:
  assumes "i < length (stages m)" and "fetchStage (cfgAt e i) i m = (c, m')"
  shows "runStage e i m =
    (if \<not> valid (stages m' ! i) then
       (case stageValidate e c of
          Some error \<Rightarrow> (Some error, callValidate i c m')
        | None \<Rightarrow> (None, markValid i c (callConfigure i c (callValidate i c m'))))
     else (None, m'))"
proof -
  have c: "c = stageGet (name (stages m ! i)) (cfgAt e i)"
    using assms(2) by (auto simp: fetchStage_def Let_def)
  show ?thesis
  proof (cases "c \<noteq> current (stages m ! i)")
    case True
    then have m': "m' = setStage i ((stages m ! i)\<lparr>valid := False\<rparr>)
                            (emit (StageGet (name (stages m ! i))) m)"
      using assms(2) by (auto simp: fetchStage_def Let_def)
    show ?thesis
      using True assms(1) c
      by (simp add: runStage_def Let_def m' callValidate_def callConfigure_def markValid_def
          emit_def setStage_def split: option.splits)
  next
    case False
    then have m': "m' = emit (StageGet (name (stages m ! i))) m"
      using assms(2) by (auto simp: fetchStage_def Let_def)
    show ?thesis
      using False assms(1) c
      by (simp add: runStage_def Let_def m' callValidate_def callConfigure_def markValid_def
          emit_def setStage_def split: option.splits)
  qed
qed

lemma advance_rest:
  "stagesLoop e i m =
    (case advance (cfgAt e) i m of (m1, None) \<Rightarrow> m1 | (m1, Some at) \<Rightarrow> restOfPass e at m1)"
proof (induction "cfgAt e" i m rule: advance.induct)
  case (1 i m)
  show ?case
  proof (cases "i < length (stages m)")
    case False
    then show ?thesis
      by (simp add: advance.simps [of "cfgAt e" i m] stagesLoop.simps [of e i m])
  next
    case True
    obtain c m' where f: "fetchStage (cfgAt e i) i m = (c, m')"
      by (cases "fetchStage (cfgAt e i) i m")
    note rs = runStage_steps [OF True f]
    show ?thesis
    proof (cases "valid (stages m' ! i)")
      case v: True
      from "1.hyps" [OF True f [symmetric]] v
      have "stagesLoop e (Suc i) m' =
          (case advance (cfgAt e) (Suc i) m' of (m1, None) \<Rightarrow> m1
           | (m1, Some at) \<Rightarrow> restOfPass e at m1)"
        by simp
      then show ?thesis
        using True f v rs
        by (simp add: advance.simps [of "cfgAt e" i m] stagesLoop.simps [of e i m])
    next
      case False
      have adv: "advance (cfgAt e) i m = (callValidate i c m', Some (AwaitValidate i c))"
        using True f False by (simp add: advance.simps [of "cfgAt e" i m])
      show ?thesis
        using True adv rs False
        by (cases "stageValidate e c")
          (simp_all add: stagesLoop.simps [of e i m] restOfPass_def)
    qed
  qed
qed

lemma startPass_rest:
  assumes "cfgAt e = (\<lambda>i. cfgService m)"
  shows "internalManage e m =
    (case startPass m of (m1, None) \<Rightarrow> m1 | (m1, Some at) \<Rightarrow> restOfPass e at m1)"
  using advance_rest [of e 0 "passBegin m"] assms
  by (simp add: internalManage_def passBody_def startPass_def)

lemma resumePass_rest:
  "restOfPass e at m =
    (case resumePass e (cfgAt e) at m of (m1, None) \<Rightarrow> m1
     | (m1, Some at') \<Rightarrow> restOfPass e at' m1)"
proof (cases at)
  case (AwaitValidate i c)
  then show ?thesis
    by (cases "stageValidate e c") (simp_all add: restOfPass_def resumePass_def)
next
  case (AwaitConfigure i c)
  then show ?thesis
    using advance_rest [of e "Suc i" "markValid i c m"]
    by (simp add: restOfPass_def resumePass_def)
qed


section \<open>Calls of \<open>manage\<close> and the completion of passes\<close>

lemma manage_active:
  "active (mgr x) \<Longrightarrow>
   manage x =
     (if queued (mgr x) then x
      else x\<lparr>mgr := (emit (ConsoleInfo ''[Manager] Queued a manage call'') (mgr x))
                       \<lparr>queued := True\<rparr>\<rparr>)"
  by (simp add: manage_def)

lemma manage_active_flags:
  assumes "active (mgr x)"
  shows "tasks (manage x) = tasks x" "active (mgr (manage x))" "queued (mgr (manage x))"
    "passesStarted (mgr (manage x)) = passesStarted (mgr x)"
  using assms by (simp_all add: manage_active emit_def passesStarted_def)

text \<open>What a stretch of a pass of invocation \<open>k\<close> leaves, in terms of the flags.\<close>

lemma putTask_settle:
  assumes k: "k < length (tasks t)" and p: "fst (tasks t ! k) = p"
    and same: "active m1 = active (mgr t)" "queued m1 = queued (mgr t)"
      "passesStarted m1 = passesStarted (mgr t)"
    and t': "t' = putTask k (settle p (m1, r)) t"
  shows "(length (tasks t') = length (tasks t) \<and> take k (tasks t') = take k (tasks t)
          \<and> drop (Suc k) (tasks t') = drop (Suc k) (tasks t)
          \<and> active (mgr t') = active (mgr t)
          \<and> ((fst (tasks t' ! k) = p \<and> passesStarted (mgr t') = passesStarted (mgr t)
               \<and> queued (mgr t') = queued (mgr t))
            \<or> (p = FirstPass \<and> fst (tasks t' ! k) = SecondPass \<and> queued (mgr t)
               \<and> \<not> queued (mgr t') \<and> passesStarted (mgr t') = Suc (passesStarted (mgr t)))))
      \<or> (tasks t' = dropTask k (tasks t) \<and> \<not> active (mgr t')
          \<and> passesStarted (mgr t')
              = passesStarted (mgr t) + (if p = FirstPass \<and> queued (mgr t) then 1 else 0))"
proof -
  obtain m' r' where s: "settle p (m1, r) = (m', r')"
    by (cases "settle p (m1, r)")
  note o = settle_outcome [OF s]
  show ?thesis
  proof (cases r')
    case None
    then show ?thesis
      using o s t' same by (simp add: putTask_def)
  next
    case (Some tk)
    then show ?thesis
      using o s t' same k by (auto simp: putTask_def)
  qed
qed

lemma resume_outcome:
  assumes k: "k < length (tasks t)" and p: "fst (tasks t ! k) = p"
  shows "(length (tasks (resume k e t)) = length (tasks t)
          \<and> take k (tasks (resume k e t)) = take k (tasks t)
          \<and> drop (Suc k) (tasks (resume k e t)) = drop (Suc k) (tasks t)
          \<and> active (mgr (resume k e t)) = active (mgr t)
          \<and> ((fst (tasks (resume k e t) ! k) = p
               \<and> passesStarted (mgr (resume k e t)) = passesStarted (mgr t)
               \<and> queued (mgr (resume k e t)) = queued (mgr t))
            \<or> (p = FirstPass \<and> fst (tasks (resume k e t) ! k) = SecondPass \<and> queued (mgr t)
               \<and> \<not> queued (mgr (resume k e t))
               \<and> passesStarted (mgr (resume k e t)) = Suc (passesStarted (mgr t)))))
      \<or> (tasks (resume k e t) = dropTask k (tasks t) \<and> \<not> active (mgr (resume k e t))
          \<and> passesStarted (mgr (resume k e t))
              = passesStarted (mgr t) + (if p = FirstPass \<and> queued (mgr t) then 1 else 0))"
proof -
  obtain at where tk: "tasks t ! k = (p, at)"
    using p by (cases "tasks t ! k") simp
  obtain m1 r where rp: "resumePass e (\<lambda>i. cfgService (mgr t)) at (mgr t) = (m1, r)"
    by (cases "resumePass e (\<lambda>i. cfgService (mgr t)) at (mgr t)")
  note c = resumePass_control [OF rp]
  have "resume k e t = putTask k (settle p (m1, r)) t"
    using k tk rp by (simp add: resume_def)
  from putTask_settle [OF k p c(1,2,4) this] show ?thesis .
qed

lemma passCompletes_outcome:
  assumes k: "k < length (tasks t)" and p: "fst (tasks t ! k) = p"
  shows "(length (tasks (passCompletes k e t)) = length (tasks t)
          \<and> take k (tasks (passCompletes k e t)) = take k (tasks t)
          \<and> drop (Suc k) (tasks (passCompletes k e t)) = drop (Suc k) (tasks t)
          \<and> active (mgr (passCompletes k e t)) = active (mgr t)
          \<and> ((fst (tasks (passCompletes k e t) ! k) = p
               \<and> passesStarted (mgr (passCompletes k e t)) = passesStarted (mgr t)
               \<and> queued (mgr (passCompletes k e t)) = queued (mgr t))
            \<or> (p = FirstPass \<and> fst (tasks (passCompletes k e t) ! k) = SecondPass
               \<and> queued (mgr t) \<and> \<not> queued (mgr (passCompletes k e t))
               \<and> passesStarted (mgr (passCompletes k e t)) = Suc (passesStarted (mgr t)))))
      \<or> (tasks (passCompletes k e t) = dropTask k (tasks t)
          \<and> \<not> active (mgr (passCompletes k e t))
          \<and> passesStarted (mgr (passCompletes k e t))
              = passesStarted (mgr t) + (if p = FirstPass \<and> queued (mgr t) then 1 else 0))"
proof -
  obtain at where tk: "tasks t ! k = (p, at)"
    using p by (cases "tasks t ! k") simp
  let ?m1 = "restOfPass (e\<lparr>cfgAt := (\<lambda>i. cfgService (mgr t))\<rparr>) at (mgr t)"
  have "passCompletes k e t = putTask k (settle p (?m1, None)) t"
    using k tk by (simp add: passCompletes_def settle_def)
  from putTask_settle [OF k p restOfPass_control this] show ?thesis .
qed

lemma manage_idle_outcome:
  assumes "\<not> active (mgr t)"
  shows "(\<exists>tk. tasks (manage t) = tasks t @ [tk] \<and> active (mgr (manage t))
          \<and> ((fst tk = FirstPass \<and> passesStarted (mgr (manage t)) = Suc (passesStarted (mgr t))
               \<and> queued (mgr (manage t)) = queued (mgr t))
            \<or> (fst tk = SecondPass \<and> queued (mgr t) \<and> \<not> queued (mgr (manage t))
               \<and> passesStarted (mgr (manage t)) = Suc (Suc (passesStarted (mgr t))))))
      \<or> (tasks (manage t) = tasks t \<and> \<not> active (mgr (manage t))
          \<and> passesStarted (mgr (manage t))
              = Suc (passesStarted (mgr t)) + (if queued (mgr t) then 1 else 0))"
proof -
  let ?m = "(mgr t)\<lparr>active := True\<rparr>"
  obtain m1 r where sp: "startPass ?m = (m1, r)"
    by (cases "startPass ?m")
  note c = startPass_control [OF sp]
  obtain m' r' where s: "settle FirstPass (m1, r) = (m', r')"
    by (cases "settle FirstPass (m1, r)")
  note o = settle_outcome [OF s]
  have m: "manage t = (case r' of Some tk \<Rightarrow> t\<lparr>mgr := m', tasks := tasks t @ [tk]\<rparr>
                        | None \<Rightarrow> t\<lparr>mgr := m'\<rparr>)"
    using assms sp s by (simp add: manage_def)
  show ?thesis
  proof (cases r')
    case None
    then show ?thesis
      using o m c by (simp add: passesStarted_upd)
  next
    case (Some tk)
    then show ?thesis
      using o m c by (auto simp: passesStarted_upd)
  qed
qed

lemma phaseInv_start:
  assumes "\<not> active (mgr s)"
  shows "phaseInv (length (tasks s)) (tasks s) (passesStarted (mgr s)) False (manage s)"
  using manage_idle_outcome [OF assms]
  by (auto simp: phaseInv_def awaits_def nth_append)

lemma retryTimerFires_active:
  assumes "active (mgr t)"
  shows "tasks (retryTimerFires h t) = tasks t" "active (mgr (retryTimerFires h t))"
    "passesStarted (mgr (retryTimerFires h t)) = passesStarted (mgr t)"
    "queued (mgr t) \<Longrightarrow> queued (mgr (retryTimerFires h t))"
    "h \<in> fst ` set (timers (mgr t)) \<Longrightarrow> queued (mgr (retryTimerFires h t))"
proof -
  let ?t = "t\<lparr>mgr := (mgr t)\<lparr>timers := filter (\<lambda>x. fst x \<noteq> h) (timers (mgr t))\<rparr>\<rparr>"
  have a: "active (mgr ?t)" using assms by simp
  note f = manage_active_flags [OF a]
  show "tasks (retryTimerFires h t) = tasks t" "active (mgr (retryTimerFires h t))"
    "passesStarted (mgr (retryTimerFires h t)) = passesStarted (mgr t)"
    "queued (mgr t) \<Longrightarrow> queued (mgr (retryTimerFires h t))"
    "h \<in> fst ` set (timers (mgr t)) \<Longrightarrow> queued (mgr (retryTimerFires h t))"
    using f assms by (simp_all add: retryTimerFires_def passesStarted_upd)
qed

lemma phaseInv_step:
  assumes inv: "phaseInv k ts b q t" and k: "k < length (tasks t)" and x: "concerns k x"
  shows "phaseInv k ts b (q \<or> (isCall x t \<and> awaits k FirstPass t)) (step x t)"
proof -
  from inv k have len: "length (tasks t) = Suc k" and tk: "take k (tasks t) = ts"
    and lts: "length ts = k"
    by (simp_all add: phaseInv_def)
  obtain p where p: "fst (tasks t ! k) = p" by simp
  have act: "active (mgr t)"
    using inv k p by (cases p) (auto simp: phaseInv_def awaits_def)
  have dt: "dropTask k (tasks t) = ts"
    using len tk by (simp add: dropTask_def)
  show ?thesis
  proof (cases x)
    case Manage
    then show ?thesis
      using inv k manage_active_flags [OF act]
      by (auto simp: phaseInv_def awaits_def)
  next
    case (ConfigChanges c)
    then show ?thesis
      using inv k by (auto simp: phaseInv_def awaits_def configChanges_def passesStarted_upd)
  next
    case (RetryTimerFires h)
    then show ?thesis
      using inv k retryTimerFires_active [OF act, of h]
      by (auto simp: phaseInv_def awaits_def)
  next
    case (Crash cd)
    then show ?thesis using x by simp
  next
    case (Resume j e)
    then have j: "j = k" using x by simp
    show ?thesis
      using resume_outcome [OF k p, of e] inv k p len dt Resume j
      by (cases p) (auto simp: phaseInv_def awaits_def)
  next
    case (PassCompletes j e)
    then have j: "j = k" using x by simp
    show ?thesis
      using passCompletes_outcome [OF k p, of e] inv k p len dt PassCompletes j
      by (cases p) (auto simp: phaseInv_def awaits_def)
  qed
qed

lemma phaseInv_run:
  "phaseInv k ts b q t \<Longrightarrow> during k xs t \<Longrightarrow>
   phaseInv k ts b (q \<or> 1 \<le> callsInFirst k xs t) (run xs t)"
proof (induction xs arbitrary: t q)
  case Nil
  then show ?case by simp
next
  case (Cons x xs)
  from Cons.prems(2) have k: "k < length (tasks t)" and c: "concerns k x"
    and d: "during k xs (step x t)"
    by simp_all
  from Cons.IH [OF phaseInv_step [OF Cons.prems(1) k c] d]
  show ?case
    by (auto simp: phaseInv_def)
qed

lemma singleFlight_manage:
  assumes "singleFlight t"
  shows "singleFlight (manage t)"
proof (cases "active (mgr t)")
  case True
  then show ?thesis
    using assms manage_active_flags [OF True] by (auto simp: singleFlight_def)
next
  case False
  then show ?thesis
    using assms manage_idle_outcome [OF False] by (auto simp: singleFlight_def)
qed

lemma singleFlight_step:
  assumes "singleFlight t" "\<not> isCrash inp"
  shows "singleFlight (step inp t)"
proof (cases inp)
  case Manage
  then show ?thesis using singleFlight_manage [OF assms(1)] by simp
next
  case (ConfigChanges c)
  then show ?thesis using assms(1) by (simp add: singleFlight_def configChanges_def)
next
  case (Crash cd)
  then show ?thesis using assms(2) by simp
next
  case (RetryTimerFires h)
  let ?t = "t\<lparr>mgr := (mgr t)\<lparr>timers := filter (\<lambda>x. fst x \<noteq> h) (timers (mgr t))\<rparr>\<rparr>"
  have "singleFlight ?t"
    using assms(1) by (simp add: singleFlight_def)
  from singleFlight_manage [OF this] show ?thesis
    using assms(1) RetryTimerFires by (simp add: retryTimerFires_def)
next
  case (Resume k e)
  show ?thesis
  proof (cases "k < length (tasks t)")
    case False
    then show ?thesis using assms(1) Resume by (simp add: resume_def)
  next
    case True
    then have k: "k = 0" and l: "length (tasks t) = 1" and a: "active (mgr t)"
      using assms(1) by (auto simp: singleFlight_def)
    have d: "dropTask k (tasks t) = []"
      using k l by (simp add: dropTask_def)
    show ?thesis
      using resume_outcome [OF True refl, of e] Resume l a d
      by (auto simp: singleFlight_def)
  qed
next
  case (PassCompletes k e)
  show ?thesis
  proof (cases "k < length (tasks t)")
    case False
    then show ?thesis using assms(1) PassCompletes by (simp add: passCompletes_def)
  next
    case True
    then have k: "k = 0" and l: "length (tasks t) = 1" and a: "active (mgr t)"
      using assms(1) by (auto simp: singleFlight_def)
    have d: "dropTask k (tasks t) = []"
      using k l by (simp add: dropTask_def)
    show ?thesis
      using passCompletes_outcome [OF True refl, of e] PassCompletes l a d
      by (auto simp: singleFlight_def)
  qed
qed

lemma singleFlight_run:
  "singleFlight t \<Longrightarrow> \<not> list_ex isCrash xs \<Longrightarrow> singleFlight (run xs t)"
  by (induction xs arbitrary: t) (simp_all add: singleFlight_step)

text \<open>
  Claim C1, as stated, fails in two places. First for calls that arrive while the second
  pass of an invocation of \<open>manage\<close> executes: below, a first call starts a pass, the
  settings change and a second call arrives during it; the first pass completes and the
  queued pass starts, suspended in the validation of the changed base settings; a third
  call arrives (\<open>active\<close> is true, one pass is executing) and sets \<open>queued\<close>. When the pass in
  progress completes, no further pass has been started and \<open>active\<close> is false. Second for
  the call of \<open>manage\<close> made by \<open>recoverRecorderFromCrash\<close>: the recovery arrives while the
  first pass executes and \<open>active\<close> is true, clears \<open>active\<close> and calls \<open>manage\<close>, which starts a
  second pass at once, so that two passes execute at the same time.
\<close>

theorem calls_outside_first_pass_counterexample:
  "active (mgr (run [Manage, ConfigChanges movedConfig, Manage,
      PassCompletes 0 (goodEnv exampleConfig)] startSystem)) = True
   \<and> queued (mgr (run [Manage, ConfigChanges movedConfig, Manage,
      PassCompletes 0 (goodEnv exampleConfig)] startSystem)) = False
   \<and> map fst (tasks (run [Manage, ConfigChanges movedConfig, Manage,
      PassCompletes 0 (goodEnv exampleConfig)] startSystem)) = [SecondPass]
   \<and> queued (mgr (run [Manage, ConfigChanges movedConfig, Manage,
      PassCompletes 0 (goodEnv exampleConfig), Manage] startSystem)) = True
   \<and> passesStarted (mgr (run [Manage, ConfigChanges movedConfig, Manage,
      PassCompletes 0 (goodEnv exampleConfig), Manage] startSystem)) = 2
   \<and> passesStarted (mgr (run [Manage, ConfigChanges movedConfig, Manage,
      PassCompletes 0 (goodEnv exampleConfig), Manage,
      PassCompletes 0 (goodEnv movedConfig)] startSystem)) = 2
   \<and> active (mgr (run [Manage, ConfigChanges movedConfig, Manage,
      PassCompletes 0 (goodEnv exampleConfig), Manage,
      PassCompletes 0 (goodEnv movedConfig)] startSystem)) = False
   \<and> passesExecuting (run [Manage, ConfigChanges movedConfig, Manage,
      PassCompletes 0 (goodEnv exampleConfig), Manage,
      PassCompletes 0 (goodEnv movedConfig)] startSystem) = 0
   \<and> active (mgr (run [Manage] startSystem)) = True
   \<and> passesExecuting (run [Manage] startSystem) = 1
   \<and> passesExecuting (run [Manage, Crash ''fault''] startSystem) = 2
   \<and> passesStarted (mgr (run [Manage, Crash ''fault''] startSystem)) = 2"
  by code_simp

text \<open>
  Claim C1, amended. Let \<open>manage\<close> be called while \<open>active\<close> is false, and let \<open>xs\<close> be what
  happens while this invocation is in flight, in any order: calls of \<open>manage\<close> (by a
  trigger or by the retry timer), changes of the settings and the steps of the
  invocation's own passes, each suspension point of a pass being a point where the
  others can arrive; crash recovery is left aside. The invocations suspended before
  stay as they are, and this one adds at most one executing pass. While its
  first pass executes, no call has started a pass, and \<open>queued\<close> is set once a call has
  arrived. Its second pass is the only further pass: whatever arrives during it, no more
  than two passes are started in all. When the invocation has ended \<open>active\<close> is false, and
  if at least one call arrived during the first pass exactly one further pass has run.
  A call that finds \<open>active\<close> set does nothing but set \<open>queued\<close>, whichever pass is executing.
  From the construction of the manager on, as long as no crash recovery runs, at most one
  pass executes at any time.
\<close>

theorem calls_during_pass_coalesce:
  assumes "\<not> active (mgr s)" and "during (length (tasks s)) xs (manage s)"
  shows "take (length (tasks s)) (tasks (run xs (manage s))) = tasks s
    \<and> length (tasks (run xs (manage s))) \<le> Suc (length (tasks s))
    \<and> passesStarted (mgr (run xs (manage s))) \<le> passesStarted (mgr s) + 2
    \<and> (if awaits (length (tasks s)) FirstPass (run xs (manage s))
        then active (mgr (run xs (manage s)))
          \<and> passesStarted (mgr (run xs (manage s))) = passesStarted (mgr s) + 1
          \<and> (if 1 \<le> callsInFirst (length (tasks s)) xs (manage s)
              then queued (mgr (run xs (manage s))) else True)
        else True)
    \<and> (if awaits (length (tasks s)) SecondPass (run xs (manage s))
        then active (mgr (run xs (manage s)))
          \<and> passesStarted (mgr (run xs (manage s))) = passesStarted (mgr s) + 2
        else True)
    \<and> (if length (tasks (run xs (manage s))) = length (tasks s)
        then \<not> active (mgr (run xs (manage s)))
          \<and> passesStarted (mgr s) + 1 \<le> passesStarted (mgr (run xs (manage s)))
          \<and> (if 1 \<le> callsInFirst (length (tasks s)) xs (manage s)
              then passesStarted (mgr (run xs (manage s))) = passesStarted (mgr s) + 2
              else True)
        else True)
    \<and> (if active (mgr x)
        then manage x =
            (if queued (mgr x) then x
             else x\<lparr>mgr := (emit (ConsoleInfo ''[Manager] Queued a manage call'') (mgr x))
                              \<lparr>queued := True\<rparr>\<rparr>)
          \<and> tasks (manage x) = tasks x \<and> queued (mgr (manage x))
          \<and> passesStarted (mgr (manage x)) = passesStarted (mgr x)
        else True)
    \<and> (if list_ex isCrash zs then True
        else passesExecuting (run zs \<lparr>mgr = newManager c, tasks = []\<rparr>) \<le> 1)"
proof -
  let ?k = "length (tasks s)" and ?b = "passesStarted (mgr s)"
  let ?q = "1 \<le> callsInFirst ?k xs (manage s)"
  have "phaseInv ?k (tasks s) ?b (False \<or> ?q) (run xs (manage s))"
    using phaseInv_run [OF phaseInv_start [OF assms(1)] assms(2)] .
  then have inv: "phaseInv ?k (tasks s) ?b ?q (run xs (manage s))"
    by simp
  have call: "if active (mgr x)
        then manage x =
            (if queued (mgr x) then x
             else x\<lparr>mgr := (emit (ConsoleInfo ''[Manager] Queued a manage call'') (mgr x))
                              \<lparr>queued := True\<rparr>\<rparr>)
          \<and> tasks (manage x) = tasks x \<and> queued (mgr (manage x))
          \<and> passesStarted (mgr (manage x)) = passesStarted (mgr x)
        else True"
  proof (cases "active (mgr x)")
    case True
    then show ?thesis
      using manage_active [OF True] manage_active_flags [OF True] by simp
  next
    case False
    then show ?thesis by simp
  qed
  have one: "if list_ex isCrash zs then True
        else passesExecuting (run zs \<lparr>mgr = newManager c, tasks = []\<rparr>) \<le> 1"
  proof (cases "list_ex isCrash zs")
    case True
    then show ?thesis by simp
  next
    case False
    have "singleFlight \<lparr>mgr = newManager c, tasks = []\<rparr>"
      by (simp add: singleFlight_def newManager_def)
    from singleFlight_run [OF this False] False show ?thesis
      by (simp add: singleFlight_def passesExecuting_def)
  qed
  have len: "length (tasks (run xs (manage s))) \<le> Suc ?k"
    and tk: "take ?k (tasks (run xs (manage s))) = tasks s"
    using inv by (simp_all add: phaseInv_def)
  have first: "if awaits ?k FirstPass (run xs (manage s))
        then active (mgr (run xs (manage s)))
          \<and> passesStarted (mgr (run xs (manage s))) = ?b + 1
          \<and> (if ?q then queued (mgr (run xs (manage s))) else True)
        else True"
    using inv by (simp add: phaseInv_def)
  have second: "if awaits ?k SecondPass (run xs (manage s))
        then active (mgr (run xs (manage s)))
          \<and> passesStarted (mgr (run xs (manage s))) = ?b + 2
        else True"
    using inv by (simp add: phaseInv_def)
  have ended: "if length (tasks (run xs (manage s))) = ?k
        then \<not> active (mgr (run xs (manage s)))
          \<and> ?b + 1 \<le> passesStarted (mgr (run xs (manage s)))
          \<and> (if ?q then passesStarted (mgr (run xs (manage s))) = ?b + 2 else True)
        else True"
    using inv by (simp add: phaseInv_def)
  have le: "passesStarted (mgr (run xs (manage s))) \<le> ?b + 2"
  proof (cases "length (tasks (run xs (manage s))) = ?k")
    case True
    then show ?thesis using inv by (simp add: phaseInv_def)
  next
    case False
    have "length (take ?k (tasks (run xs (manage s)))) = ?k"
      by (simp only: tk)
    with False have l: "?k < length (tasks (run xs (manage s)))" by simp
    show ?thesis
    proof (cases "fst (tasks (run xs (manage s)) ! ?k)")
      case FirstPass
      then show ?thesis using first l by (simp add: awaits_def)
    next
      case SecondPass
      then show ?thesis using second l by (simp add: awaits_def)
    qed
  qed
  from tk len le first second ended call one show ?thesis
    by blast
qed

theorem calls_during_pass_coalesce_witness:
  "during 0 [Manage, Resume 0 (goodEnv exampleConfig), Manage, ConfigChanges movedConfig,
             Manage, PassCompletes 0 (goodEnv exampleConfig), Manage,
             Resume 0 (goodEnv movedConfig), RetryTimerFires 0, Manage,
             PassCompletes 0 (goodEnv movedConfig)]
          (manage startSystem)
   \<and> callsInFirst 0 [Manage, Resume 0 (goodEnv exampleConfig), Manage,
             ConfigChanges movedConfig,
             Manage, PassCompletes 0 (goodEnv exampleConfig), Manage,
             Resume 0 (goodEnv movedConfig), RetryTimerFires 0, Manage,
             PassCompletes 0 (goodEnv movedConfig)]
          (manage startSystem) = 3
   \<and> tasks (run [Manage, Resume 0 (goodEnv exampleConfig), Manage, ConfigChanges movedConfig,
             Manage, PassCompletes 0 (goodEnv exampleConfig), Manage,
             Resume 0 (goodEnv movedConfig), RetryTimerFires 0, Manage,
             PassCompletes 0 (goodEnv movedConfig)]
          (manage startSystem)) = []
   \<and> active (mgr (run [Manage, Resume 0 (goodEnv exampleConfig), Manage,
             ConfigChanges movedConfig,
             Manage, PassCompletes 0 (goodEnv exampleConfig), Manage,
             Resume 0 (goodEnv movedConfig), RetryTimerFires 0, Manage,
             PassCompletes 0 (goodEnv movedConfig)]
          (manage startSystem))) = False
   \<and> passesStarted (mgr (run [Manage, Resume 0 (goodEnv exampleConfig), Manage,
             ConfigChanges movedConfig,
             Manage, PassCompletes 0 (goodEnv exampleConfig), Manage,
             Resume 0 (goodEnv movedConfig), RetryTimerFires 0, Manage,
             PassCompletes 0 (goodEnv movedConfig)]
          (manage startSystem))) = 2"
proof -
  let ?xs = "[Manage, Resume 0 (goodEnv exampleConfig), Manage, ConfigChanges movedConfig,
             Manage, PassCompletes 0 (goodEnv exampleConfig), Manage,
             Resume 0 (goodEnv movedConfig), RetryTimerFires 0, Manage,
             PassCompletes 0 (goodEnv movedConfig)]"
  note r = calls_during_pass_coalesce [of startSystem ?xs startSystem "[]" exampleConfig]
  have idle: "\<not> active (mgr startSystem)"
    by code_simp
  have d0: "during (length (tasks startSystem)) ?xs (manage startSystem)"
    by code_simp
  have d: "during 0 ?xs (manage startSystem)"
    by code_simp
  have c: "callsInFirst 0 ?xs (manage startSystem) = 3"
    by code_simp
  have e: "tasks (run ?xs (manage startSystem)) = []"
    by code_simp
  have len: "(length (tasks (run ?xs (manage startSystem))) = length (tasks startSystem)) = True"
    by code_simp
  have calls: "(1 \<le> callsInFirst (length (tasks startSystem)) ?xs (manage startSystem)) = True"
    by code_simp
  have p0: "passesStarted (mgr startSystem) + 2 = 2"
    by code_simp
  from r [OF idle d0]
  have "if length (tasks (run ?xs (manage startSystem))) = length (tasks startSystem)
        then \<not> active (mgr (run ?xs (manage startSystem)))
          \<and> passesStarted (mgr startSystem) + 1 \<le> passesStarted (mgr (run ?xs (manage startSystem)))
          \<and> (if 1 \<le> callsInFirst (length (tasks startSystem)) ?xs (manage startSystem)
              then passesStarted (mgr (run ?xs (manage startSystem)))
                = passesStarted (mgr startSystem) + 2
              else True)
        else True"
    by blast
  then have "active (mgr (run ?xs (manage startSystem))) = False"
    and "passesStarted (mgr (run ?xs (manage startSystem))) = 2"
    unfolding len calls p0 if_True by blast+
  with d c e show ?thesis
    by blast
qed

text \<open>
  Claim C2: the code at the failing input. The settings change while the first pass
  executes and a call arrives; the queued pass starts when the first completes and is
  suspended in the validation of the changed base settings. A further call arrives and
  sets \<open>queued\<close>. When the pass completes, \<open>manage\<close> clears \<open>active\<close> without looking at \<open>queued\<close>
  again: \<open>queued\<close> is true while \<open>active\<close> is false and no pass is executing, and the queued
  request has not been served. The next call of \<open>manage\<close> finds the flag still set and
  runs two passes although no call arrived during its first.
\<close>

theorem queued_outlives_active:
  "queued (mgr (run [Manage, ConfigChanges movedConfig, Manage,
      PassCompletes 0 (goodEnv exampleConfig), Manage,
      PassCompletes 0 (goodEnv movedConfig)] startSystem)) = True
   \<and> active (mgr (run [Manage, ConfigChanges movedConfig, Manage,
      PassCompletes 0 (goodEnv exampleConfig), Manage,
      PassCompletes 0 (goodEnv movedConfig)] startSystem)) = False
   \<and> passesExecuting (run [Manage, ConfigChanges movedConfig, Manage,
      PassCompletes 0 (goodEnv exampleConfig), Manage,
      PassCompletes 0 (goodEnv movedConfig)] startSystem) = 0
   \<and> passesStarted (mgr (run [Manage, ConfigChanges movedConfig, Manage,
      PassCompletes 0 (goodEnv exampleConfig), Manage,
      PassCompletes 0 (goodEnv movedConfig)] startSystem)) = 2
   \<and> passesStarted (mgr (run [Manage, ConfigChanges movedConfig, Manage,
      PassCompletes 0 (goodEnv exampleConfig), Manage,
      PassCompletes 0 (goodEnv movedConfig), Manage] startSystem)) = 4
   \<and> passesExecuting (run [Manage, ConfigChanges movedConfig, Manage,
      PassCompletes 0 (goodEnv exampleConfig), Manage,
      PassCompletes 0 (goodEnv movedConfig), Manage] startSystem) = 0"
  by code_simp


section \<open>Crash recovery\<close>

lemma crashReset_fields:
  "stages (crashReset cd m) = map (\<lambda>st. st\<lparr>valid := False\<rparr>) (stages m)"
  "active (crashReset cd m) = False"
  "queued (crashReset cd m) = False"
  "cfgService (crashReset cd m) = cfgService m"
  "trace (crashReset cd m) =
     trace m @ [AddCrashToUI cd, RecorderRemoveAllListeners, RecorderShutdownOBS, NewRecorder]"
  by (simp_all add: crashReset_def emit_def Let_def)

lemma pass_invalidates_only_changed:
  assumes j: "j < length (stages m)" and v: "valid (stages m ! j)"
    and nv: "\<not> valid (stages (internalManage e m) ! j)"
  shows "fetched e m j \<noteq> current (stages m ! j)"
proof -
  from first_failure [of "length (stages m)" e m]
  show ?thesis
  proof
    assume ok: "\<forall>j<length (stages m). \<not> failsAt e m j"
    have "stages (internalManage e m) ! j =
        (if needsRun e m j then appliedStage e m j else stages m ! j)"
      using pass_ok [OF ok] j by (simp add: nth_stagesAfter)
    with v nv show ?thesis
      by (simp add: appliedStage_def split: if_splits)
  next
    assume "\<exists>i<length (stages m). failsAt e m i \<and> (\<forall>j<i. \<not> failsAt e m j)"
    then obtain i err where i: "i < length (stages m)" and run: "needsRun e m i"
      and err: "stageValidate e (fetched e m i) = Some err"
      and before: "\<forall>j<i. \<not> failsAt e m j"
      by (auto simp: failsAt_def)
    have st: "stages (internalManage e m) =
        (stagesAfter e m 0 i)[i := (stages m ! i)\<lparr>valid := False\<rparr>]"
      using pass_fail [OF i before run err] by simp
    show ?thesis
    proof (cases "j = i")
      case True
      with run v show ?thesis
        by (simp add: needsRun_def)
    next
      case False
      then have "stages (internalManage e m) ! j =
          (if j < i \<and> needsRun e m j then appliedStage e m j else stages m ! j)"
        using j by (simp add: st nth_stagesAfter)
      with v nv show ?thesis
        by (simp add: appliedStage_def split: if_splits)
    qed
  qed
qed

lemma after_crash:
  assumes mc: "stages mc = map (\<lambda>st. st\<lparr>valid := False\<rparr>) (stages m)"
    and j: "j < length (stages m)"
  shows "fetched e mc j = fetched e m j" "needsRun e mc j"
    "failsAt e mc j = (stageValidate e (fetched e m j) \<noteq> None)"
    "stageCalls e mc j =
       [StageGet (name (stages m ! j)), StageValidate (name (stages m ! j)) (fetched e m j),
        StageConfigure (name (stages m ! j)) (fetched e m j)]"
    "appliedStage e mc j = appliedStage e m j"
    "name (stages mc ! j) = name (stages m ! j)"
  using j
  by (simp_all add: mc fetched_def needsRun_def failsAt_def stageCalls_def appliedStage_def)

text \<open>
  A whole pass on the state \<open>recoverRecorderFromCrash\<close> hands to \<open>manage\<close>: no stage takes
  the fast path.
\<close>

lemma pass_after_crashReset:
  assumes all: "\<forall>j<length (stages m). stageValidate e (fetched e m j) = None"
  shows "stages (internalManage e ((crashReset cd m)\<lparr>active := True\<rparr>))
          = map (appliedStage e m) [0..<length (stages m)]"
    "filter isStageEvent (trace (internalManage e ((crashReset cd m)\<lparr>active := True\<rparr>)))
          = filter isStageEvent (trace m)
            @ concat (map (\<lambda>j. [StageGet (name (stages m ! j)),
                                 StageValidate (name (stages m ! j)) (fetched e m j),
                                 StageConfigure (name (stages m ! j)) (fetched e m j)])
                       [0..<length (stages m)])"
proof -
  let ?n = "length (stages m)"
  let ?mc = "(crashReset cd m)\<lparr>active := True\<rparr>"
  let ?triple = "\<lambda>j. [StageGet (name (stages m ! j)),
                      StageValidate (name (stages m ! j)) (fetched e m j),
                      StageConfigure (name (stages m ! j)) (fetched e m j)]"
  have mc: "stages ?mc = map (\<lambda>st. st\<lparr>valid := False\<rparr>) (stages m)"
    by (simp add: crashReset_fields)
  have len: "length (stages ?mc) = ?n" "length (stages (crashReset cd m)) = ?n"
    by (simp_all add: crashReset_fields)
  note ac = after_crash [OF mc]
  have ev0: "filter isStageEvent (trace (crashReset cd m)) = filter isStageEvent (trace m)"
    by (simp add: crashReset_fields isStageEvent_def)
  have calls: "map (stageCalls e ?mc) [0..<?n] = map ?triple [0..<?n]"
    using ac(4) by simp
  have ok: "\<forall>j<length (stages ?mc). \<not> failsAt e ?mc j"
  proof (intro allI impI)
    fix j assume "j < length (stages ?mc)"
    then have j: "j < ?n" by (simp add: crashReset_fields)
    with all have "stageValidate e (fetched e m j) = None" by simp
    then show "\<not> failsAt e ?mc j" by (simp add: ac(3) [OF j])
  qed
  have sa: "stagesAfter e ?mc 0 ?n = map (appliedStage e m) [0..<?n]"
    using ac(2,5)
    by (intro nth_equalityI) (simp_all add: length_stagesAfter nth_stagesAfter len)
  show "stages (internalManage e ?mc) = map (appliedStage e m) [0..<?n]"
    using pass_ok [OF ok] sa by (simp add: len)
  show "filter isStageEvent (trace (internalManage e ?mc))
          = filter isStageEvent (trace m) @ concat (map ?triple [0..<?n])"
    using pass_ok [OF ok] calls by (simp add: len ev0)
qed

text \<open>
  When no invocation of \<open>manage\<close> is suspended at the crash, the pass that the recovery
  starts is such a whole pass.
\<close>

lemma recovery_when_idle:
  assumes idle: "tasks s = []" and ne: "stages (mgr s) \<noteq> []"
  shows "length (tasks (recoverRecorderFromCrash cd s)) = 1"
    "tasks (passCompletes 0 e (recoverRecorderFromCrash cd s)) = []"
    "mgr (passCompletes 0 e (recoverRecorderFromCrash cd s)) =
      (internalManage (e\<lparr>cfgAt := (\<lambda>i. cfgService (mgr s))\<rparr>)
         ((crashReset cd (mgr s))\<lparr>active := True\<rparr>))\<lparr>active := False\<rparr>"
proof -
  let ?mc = "(crashReset cd (mgr s))\<lparr>active := True\<rparr>"
  let ?e = "e\<lparr>cfgAt := (\<lambda>i. cfgService (mgr s))\<rparr>"
  let ?g = "\<lambda>i::nat. cfgService (mgr s)"
  let ?m0 = "passBegin ?mc"
  have cs: "cfgService ?mc = cfgService (mgr s)"
    by (simp add: crashReset_fields)
  have st: "stages ?m0 = map (\<lambda>st. st\<lparr>valid := False\<rparr>) (stages (mgr s))"
    by (simp add: passBegin_fields crashReset_fields)
  have l0: "0 < length (stages ?m0)"
    using ne by (simp add: st)
  obtain c m' where f: "fetchStage (?g 0) 0 ?m0 = (c, m')"
    by (cases "fetchStage (?g 0) 0 ?m0")
  have nv: "\<not> valid (stages m' ! 0)"
    using f l0 ne
    by (auto simp: fetchStage_def Let_def setStage_def emit_def st nth_map
        split: if_splits)
  have sp: "startPass ?mc = (callValidate 0 c m', Some (AwaitValidate 0 c))"
    using f nv l0 by (simp add: startPass_def cs advance.simps [of ?g 0 ?m0])
  let ?m1 = "callValidate 0 c m'"
  let ?at = "AwaitValidate 0 c"
  have rec: "recoverRecorderFromCrash cd s = s\<lparr>mgr := ?m1, tasks := [(FirstPass, ?at)]\<rparr>"
    using sp idle
    by (simp add: recoverRecorderFromCrash_def manage_def crashReset_fields settle_def)
  have c1: "cfgService ?m1 = cfgService (mgr s)"
    using startPass_control(3) [OF sp] cs by simp
  have cfgAt: "cfgAt ?e = (\<lambda>i. cfgService ?mc)"
    by (simp add: cs)
  have whole: "internalManage ?e ?mc = restOfPass ?e ?at ?m1"
    using startPass_rest [OF cfgAt] sp by simp
  have q: "\<not> queued (restOfPass ?e ?at ?m1)"
    using startPass_control(2) [OF sp]
    by (simp add: restOfPass_control crashReset_fields)
  show "length (tasks (recoverRecorderFromCrash cd s)) = 1"
    by (simp add: rec)
  show "tasks (passCompletes 0 e (recoverRecorderFromCrash cd s)) = []"
    using q by (simp add: rec passCompletes_def c1 resumeManage_def putTask_def dropTask_def)
  show "mgr (passCompletes 0 e (recoverRecorderFromCrash cd s)) =
      (internalManage ?e ?mc)\<lparr>active := False\<rparr>"
    using q by (simp add: rec passCompletes_def c1 resumeManage_def putTask_def whole)
qed

text \<open>
  Claim C4: the code at the failing input. The engine fault arrives while the first pass
  is suspended in the validation of the base settings. \<open>recoverRecorderFromCrash\<close> clears
  every flag and its call of \<open>manage\<close> starts a pass, which fetches the base stage and
  suspends in its validation: two passes are in flight (the interrupted one first in the
  list). The interrupted pass resumes at its own stage, applies all five stages and
  marks each valid; its invocation then clears \<open>active\<close> while the pass of the recovery is
  still in flight. That pass, the one requested by the recovery, applies the base stage
  and finds the four others valid and unchanged: it neither validates nor applies them.
\<close>

theorem crash_during_pass:
  "passesExecuting (run [Manage, Crash ''fault''] startSystem) = 2
   \<and> map valid (stages (mgr (run [Manage, Crash ''fault''] startSystem)))
       = [False, False, False, False, False]
   \<and> active (mgr (run [Manage, Crash ''fault''] startSystem)) = True
   \<and> filter isStageEvent
        (drop (length (trace (crashReset ''fault'' (mgr (run [Manage] startSystem)))))
          (trace (mgr (run [Manage, Crash ''fault''] startSystem))))
       = [StageGet obsBase, StageValidate obsBase (BaseCfg (getObsBaseConfig exampleConfig))]
   \<and> filter isStageEvent
        (drop (length (trace (mgr (run [Manage, Crash ''fault''] startSystem))))
          (trace (mgr (run [Manage, Crash ''fault'', PassCompletes 0 (goodEnv exampleConfig)]
            startSystem))))
       = [StageConfigure obsBase (BaseCfg (getObsBaseConfig exampleConfig)),
          StageGet obsVideo,
          StageValidate obsVideo (VideoCfg (getObsVideoConfig exampleConfig)),
          StageConfigure obsVideo (VideoCfg (getObsVideoConfig exampleConfig)),
          StageGet obsAudio,
          StageValidate obsAudio (AudioCfg (getObsAudioConfig exampleConfig)),
          StageConfigure obsAudio (AudioCfg (getObsAudioConfig exampleConfig)),
          StageGet flavour,
          StageValidate flavour (FlavCfg (getFlavourConfig exampleConfig)),
          StageConfigure flavour (FlavCfg (getFlavourConfig exampleConfig)),
          StageGet overlay,
          StageValidate overlay (OverlayCfg (getOverlayConfig exampleConfig)),
          StageConfigure overlay (OverlayCfg (getOverlayConfig exampleConfig))]
   \<and> map valid (stages (mgr (run [Manage, Crash ''fault'',
         PassCompletes 0 (goodEnv exampleConfig)] startSystem)))
       = [True, True, True, True, True]
   \<and> active (mgr (run [Manage, Crash ''fault'', PassCompletes 0 (goodEnv exampleConfig)]
        startSystem)) = False
   \<and> passesExecuting (run [Manage, Crash ''fault'', PassCompletes 0 (goodEnv exampleConfig)]
        startSystem) = 1
   \<and> filter isStageEvent
        (drop (length (trace (mgr (run [Manage, Crash ''fault'',
            PassCompletes 0 (goodEnv exampleConfig)] startSystem))))
          (trace (mgr (run [Manage, Crash ''fault'', PassCompletes 0 (goodEnv exampleConfig),
            PassCompletes 0 (goodEnv exampleConfig)] startSystem))))
       = [StageConfigure obsBase (BaseCfg (getObsBaseConfig exampleConfig)),
          StageGet obsVideo, StageGet obsAudio, StageGet flavour, StageGet overlay]
   \<and> passesExecuting (run [Manage, Crash ''fault'', PassCompletes 0 (goodEnv exampleConfig),
        PassCompletes 0 (goodEnv exampleConfig)] startSystem) = 0
   \<and> configValid (mgr (run [Manage, Crash ''fault'', PassCompletes 0 (goodEnv exampleConfig),
        PassCompletes 0 (goodEnv exampleConfig)] startSystem)) = True
   \<and> passesStarted (mgr (run [Manage, Crash ''fault'', PassCompletes 0 (goodEnv exampleConfig),
        PassCompletes 0 (goodEnv exampleConfig)] startSystem)) = 2"
  by code_simp

end
